theory Spec2Isabelle
  imports Main "HOL-Library.Word"
begin

section \<open>Errors\<close>

text \<open>
  Every failure of the parser is a \<^verbatim>\<open>std::runtime_error\<close>; the constructors
  stand for the five messages of \<^verbatim>\<open>netvent.hpp\<close>: "Empty data", "Malformed array",
  "Malformed table", "Invalid table format: missing '='" and "Unknown type".
\<close>

datatype error = EmptyData | MalformedArray | MalformedTable | MissingEquals | UnknownType

section \<open>The parts of the C++ standard library the header uses\<close>

subsection \<open>Characters\<close>

definition isspace :: "char \<Rightarrow> bool" where
  "isspace c = (c = CHR '' '' \<or> c = CHR 0x09 \<or> c = CHR 0x0A \<or> c = CHR 0x0B
                \<or> c = CHR 0x0C \<or> c = CHR 0x0D)"

definition digit_chars :: string where
  "digit_chars = ''0123456789''"

definition isdigit :: "char \<Rightarrow> bool" where
  "isdigit c = (c \<in> set digit_chars)"

definition digit_char :: "nat \<Rightarrow> char" where
  "digit_char d = digit_chars ! d"

fun index_of :: "char \<Rightarrow> string \<Rightarrow> nat" where
  "index_of c [] = 0"
| "index_of c (x # xs) = (if c = x then 0 else Suc (index_of c xs))"

definition digit_val :: "char \<Rightarrow> nat" where
  "digit_val c = index_of c digit_chars"

text \<open>The argument \<^verbatim>\<open>" \t"\<close> of the trimming calls.\<close>

definition blank_chars :: string where
  "blank_chars = [CHR '' '', CHR 0x09]"

definition blank :: "char \<Rightarrow> bool" where
  "blank c = (c \<in> set blank_chars)"

subsection \<open>Members of \<^verbatim>\<open>std::string\<close>\<close>

text \<open>A position result is \<open>None\<close> for \<^verbatim>\<open>npos\<close>.\<close>

fun find_char :: "string \<Rightarrow> char \<Rightarrow> nat option" where
  "find_char [] c = None"
| "find_char (x # xs) c = (if x = c then Some 0 else map_option Suc (find_char xs c))"

fun find_first_not_of :: "string \<Rightarrow> string \<Rightarrow> nat option" where
  "find_first_not_of [] cs = None"
| "find_first_not_of (x # xs) cs =
     (if x \<in> set cs then map_option Suc (find_first_not_of xs cs) else Some 0)"

definition find_last_not_of :: "string \<Rightarrow> string \<Rightarrow> nat option" where
  "find_last_not_of s cs =
     (case find_first_not_of (rev s) cs of
        None \<Rightarrow> None
      | Some i \<Rightarrow> Some (length s - 1 - i))"

text \<open>
  \<^verbatim>\<open>s.erase(pos, count)\<close> removes \<open>min count (size - pos)\<close> characters from \<open>pos\<close>;
  the count \<^verbatim>\<open>npos\<close> (also the default) removes up to the end.
\<close>

definition erase :: "string \<Rightarrow> nat \<Rightarrow> nat option \<Rightarrow> string" where
  "erase s pos cnt =
     take pos s @ (case cnt of None \<Rightarrow> [] | Some n \<Rightarrow> drop (pos + n) s)"

definition substr :: "string \<Rightarrow> nat \<Rightarrow> nat \<Rightarrow> string" where
  "substr s pos n = take n (drop pos s)"

text \<open>
  The two statements that strip blanks, written four times in the parser:
  \<^verbatim>\<open>item.erase(0, item.find_first_not_of(" \t"));\<close>
  \<^verbatim>\<open>item.erase(item.find_last_not_of(" \t") + 1);\<close>
  In the second, \<^verbatim>\<open>npos + 1\<close> wraps around to 0.
\<close>

definition trim :: "string \<Rightarrow> string" where
  "trim item =
     (let item1 = erase item 0 (find_first_not_of item blank_chars);
          p = (case find_last_not_of item1 blank_chars of None \<Rightarrow> 0 | Some i \<Rightarrow> i + 1)
      in erase item1 p None)"

subsection \<open>Integers to text and back\<close>

text \<open>\<^verbatim>\<open>ss << int\<close>: decimal digits, a minus sign for negative values.\<close>

fun show_nat :: "nat \<Rightarrow> string" where
  "show_nat n = (if n < 10 then [digit_char n] else show_nat (n div 10) @ [digit_char (n mod 10)])"

declare show_nat.simps [simp del]

definition show_int :: "int \<Rightarrow> string" where
  "show_int i = (if i < 0 then CHR ''-'' # show_nat (nat (- i)) else show_nat (nat i))"

definition digits_val :: "string \<Rightarrow> nat" where
  "digits_val ds = foldl (\<lambda>a c. 10 * a + digit_val c) 0 ds"

text \<open>
  \<^verbatim>\<open>std::stoi\<close> is \<^verbatim>\<open>strtol\<close> in base 10: leading white space is skipped, one
  sign is optional, then the longest run of digits is read and the rest of the text
  is ignored. No digit at all is \<^verbatim>\<open>invalid_argument\<close>, a value outside of
  \<^verbatim>\<open>int\<close> is \<^verbatim>\<open>out_of_range\<close>; both are \<open>None\<close> here, since the only
  caller catches everything.
\<close>

definition strip_sign :: "string \<Rightarrow> bool \<times> string" where
  "strip_sign t =
     (case t of
        [] \<Rightarrow> (False, t)
      | c # u \<Rightarrow> if c = CHR ''-'' then (True, u) else if c = CHR ''+'' then (False, u) else (False, t))"

definition stoi :: "string \<Rightarrow> 32 word option" where
  "stoi s =
     (let (neg, u) = strip_sign (dropWhile isspace s);
          ds = takeWhile isdigit u
      in if ds = [] then None
         else let v = (if neg then - int (digits_val ds) else int (digits_val ds))
              in if - (2 ^ 31) \<le> v \<and> v \<le> 2 ^ 31 - 1 then Some (word_of_int v) else None)"

subsection \<open>Floats\<close>

text \<open>
  The 32-bit float arithmetic is not interpreted: the development is parametric in the
  type \<open>'f\<close> of floats and in the four operations the header applies to them.
  \<^item> \<open>strtof\<close>: the value \<^verbatim>\<open>strtof\<close> converts an accepted text to, \<open>None\<close> when it
    reports \<^verbatim>\<open>ERANGE\<close>;
  \<^item> \<open>put_float\<close>: \<^verbatim>\<open>ss << std::fixed << std::setprecision(1) << f\<close>;
  \<^item> \<open>float_less\<close>, \<open>float_eq\<close>: \<^verbatim>\<open><\<close> and \<^verbatim>\<open>==\<close> on \<^verbatim>\<open>float\<close>.
\<close>

record 'f float_lib =
  strtof :: "string \<Rightarrow> 'f option"
  put_float :: "'f \<Rightarrow> string"
  float_less :: "'f \<Rightarrow> 'f \<Rightarrow> bool"
  float_eq :: "'f \<Rightarrow> 'f \<Rightarrow> bool"

text \<open>
  Which texts \<^verbatim>\<open>strtof\<close> converts is a matter of characters only: after white space
  and an optional sign the text must start with a digit, with a point followed by a
  digit, or (in any case of letters) with \<^verbatim>\<open>inf\<close> or \<^verbatim>\<open>nan\<close>.
\<close>

definition lower :: "char \<Rightarrow> char" where
  "lower c = (if c = CHR ''I'' then CHR ''i'' else if c = CHR ''N'' then CHR ''n''
              else if c = CHR ''F'' then CHR ''f'' else if c = CHR ''A'' then CHR ''a'' else c)"

definition strtof_subject :: "string \<Rightarrow> bool" where
  "strtof_subject s =
     (let (neg, u) = strip_sign (dropWhile isspace s)
      in (case u of
            [] \<Rightarrow> False
          | c # r \<Rightarrow>
              isdigit c
              \<or> (c = CHR ''.'' \<and> (case r of [] \<Rightarrow> False | d # _ \<Rightarrow> isdigit d))
              \<or> map lower (take 3 u) = ''inf''
              \<or> map lower (take 3 u) = ''nan''))"

text \<open>
  \<^verbatim>\<open>std::stof\<close>: \<^verbatim>\<open>invalid_argument\<close> when nothing is converted,
  \<^verbatim>\<open>out_of_range\<close> on \<^verbatim>\<open>ERANGE\<close>; both are \<open>None\<close>.
\<close>

definition stof :: "'f float_lib \<Rightarrow> string \<Rightarrow> 'f option" where
  "stof lib s = (if strtof_subject s then strtof lib s else None)"

section \<open>The data model\<close>

text \<open>
  \<^verbatim>\<open>std::variant<int, float, bool, std::string, std::shared_ptr<Table>>\<close>.
  A table-valued \<open>Value\<close> carries the address of the shared \<^verbatim>\<open>Table\<close> object, which
  is what the comparison operators look at, and the table found there. A \<open>Table\<close>
  is its \<^verbatim>\<open>std::map<Value, Value>\<close>, kept as the list of its pairs in iteration
  order, and the flag \<^verbatim>\<open>is_array\<close>.
\<close>

datatype 'f Value =
    VInt (as_int: "32 word")
  | VFloat (as_float: 'f)
  | VBool (as_bool: bool)
  | VString (as_string: string)
  | VTable (address: nat) (as_table: "'f Table")
and 'f Table =
    Table (table_data: "('f Value \<times> 'f Value) list") (is_array: bool)

fun index :: "'f Value \<Rightarrow> nat" where
  "index (VInt _) = 0"
| "index (VFloat _) = 1"
| "index (VBool _) = 2"
| "index (VString _) = 3"
| "index (VTable _ _) = 4"

definition is_int :: "'f Value \<Rightarrow> bool" where
  "is_int v = (index v = 0)"

definition is_float :: "'f Value \<Rightarrow> bool" where
  "is_float v = (index v = 1)"

definition is_bool :: "'f Value \<Rightarrow> bool" where
  "is_bool v = (index v = 2)"

definition is_string :: "'f Value \<Rightarrow> bool" where
  "is_string v = (index v = 3)"

definition is_table :: "'f Value \<Rightarrow> bool" where
  "is_table v = (index v = 4)"

subsection \<open>Comparison operators\<close>

text \<open>
  \<^verbatim>\<open>std::string::operator<\<close> compares lexicographically, characters as
  \<^verbatim>\<open>unsigned char\<close>.
\<close>

fun string_less :: "string \<Rightarrow> string \<Rightarrow> bool" where
  "string_less [] [] = False"
| "string_less [] (y # ys) = True"
| "string_less (x # xs) [] = False"
| "string_less (x # xs) (y # ys) =
     ((of_char x :: nat) < of_char y \<or> (x = y \<and> string_less xs ys))"

definition value_less :: "'f float_lib \<Rightarrow> 'f Value \<Rightarrow> 'f Value \<Rightarrow> bool" where
  "value_less lib lhs rhs =
     (if index lhs \<noteq> index rhs then index lhs < index rhs
      else if is_int lhs then sint (as_int lhs) < sint (as_int rhs)
      else if is_float lhs then float_less lib (as_float lhs) (as_float rhs)
      else if is_bool lhs then as_bool lhs < as_bool rhs
      else if is_string lhs then string_less (as_string lhs) (as_string rhs)
      else if is_table lhs then address lhs < address rhs
      else False)"

definition value_eq :: "'f float_lib \<Rightarrow> 'f Value \<Rightarrow> 'f Value \<Rightarrow> bool" where
  "value_eq lib lhs rhs =
     (if index lhs \<noteq> index rhs then False
      else if is_int lhs then as_int lhs = as_int rhs
      else if is_float lhs then float_eq lib (as_float lhs) (as_float rhs)
      else if is_bool lhs then as_bool lhs = as_bool rhs
      else if is_string lhs then as_string lhs = as_string rhs
      else if is_table lhs then address lhs = address rhs
      else True)"

subsection \<open>The ordered map\<close>

text \<open>
  \<^verbatim>\<open>std::map<Value, Value>\<close> is the list of its pairs in iteration order. Both
  operations look for the key with \<^verbatim>\<open>operator<\<close> only: the position of \<open>k\<close> is
  before the first key that \<open>k\<close> is less than, a key that is neither less nor greater
  is the key itself. (The library searches a balanced tree; for a strict weak order it
  finds the same position as this walk from the front.)
  \<^item> \<open>map_set lib k v m\<close> is \<^verbatim>\<open>m[k] = v\<close>;
  \<^item> \<open>subscript lib k m\<close> is the map after \<^verbatim>\<open>m[k]\<close> alone, which inserts the
    default \<^verbatim>\<open>Value()\<close>, the integer 0, for a key that is absent.
\<close>

type_synonym 'f pairs = "('f Value \<times> 'f Value) list"

fun map_set :: "'f float_lib \<Rightarrow> 'f Value \<Rightarrow> 'f Value \<Rightarrow> 'f pairs \<Rightarrow> 'f pairs" where
  "map_set lib k v [] = [(k, v)]"
| "map_set lib k v ((k', v') # m) =
     (if value_less lib k k' then (k, v) # (k', v') # m
      else if value_less lib k' k then (k', v') # map_set lib k v m
      else (k', v) # m)"

fun subscript :: "'f float_lib \<Rightarrow> 'f Value \<Rightarrow> 'f pairs \<Rightarrow> 'f pairs" where
  "subscript lib k [] = [(k, VInt 0)]"
| "subscript lib k ((k', v') # m) =
     (if value_less lib k k' then (k, VInt 0) # (k', v') # m
      else if value_less lib k' k then (k', v') # subscript lib k m
      else (k', v') # m)"

subsection \<open>Table\<close>

text \<open>
  The three constructors, \<^verbatim>\<open>operator[]\<close>, \<^verbatim>\<open>get_is_array\<close> and \<^verbatim>\<open>get_data\<close>.
  The constructor from a vector stores element \<open>i\<close> under the key
  \<^verbatim>\<open>Value(static_cast<int>(i))\<close>; the cast of the \<^verbatim>\<open>size_t\<close> index wraps around
  at 32 bits.
\<close>

definition Table_default :: "'f Table" where
  "Table_default = Table [] False"

definition Table_of_map :: "'f pairs \<Rightarrow> 'f Table" where
  "Table_of_map d = Table d False"

fun vector_loop :: "'f float_lib \<Rightarrow> 'f Value list \<Rightarrow> nat \<Rightarrow> 'f pairs \<Rightarrow> 'f pairs" where
  "vector_loop lib [] i m = m"
| "vector_loop lib (x # xs) i m =
     vector_loop lib xs (Suc i) (map_set lib (VInt (word_of_nat i)) x m)"

definition Table_of_vector :: "'f float_lib \<Rightarrow> 'f Value list \<Rightarrow> 'f Table" where
  "Table_of_vector lib d = Table (vector_loop lib d 0 []) True"

definition Table_subscript :: "'f float_lib \<Rightarrow> 'f Table \<Rightarrow> 'f Value \<Rightarrow> 'f Table" where
  "Table_subscript lib t key = Table (subscript lib key (table_data t)) (is_array t)"

definition get_is_array :: "'f Table \<Rightarrow> bool" where
  "get_is_array t = is_array t"

text \<open>\<^verbatim>\<open>std::variant<std::map<Value, Value>, std::vector<Value>>\<close> is a sum.\<close>

definition get_data :: "'f Table \<Rightarrow> 'f pairs + 'f Value list" where
  "get_data t = (if is_array t then Inr (map snd (table_data t)) else Inl (table_data t))"

section \<open>Serializer\<close>

text \<open>
  \<^verbatim>\<open>Value::serialize\<close> and \<^verbatim>\<open>Table::serialize\<close>. The two loops of the latter carry
  their flag \<^verbatim>\<open>first\<close>.
\<close>

function (sequential) serialize :: "'f float_lib \<Rightarrow> 'f Value \<Rightarrow> string"
  and Table_serialize :: "'f float_lib \<Rightarrow> 'f Table \<Rightarrow> string"
  and array_out :: "'f float_lib \<Rightarrow> bool \<Rightarrow> 'f pairs \<Rightarrow> string"
  and map_out :: "'f float_lib \<Rightarrow> bool \<Rightarrow> 'f pairs \<Rightarrow> string"
where
  "serialize lib (VInt i) = show_int (sint i)"
| "serialize lib (VFloat f) = put_float lib f"
| "serialize lib (VBool b) = (if b then ''true'' else ''false'')"
| "serialize lib (VString s) = CHR 0x22 # s @ [CHR 0x22]"
| "serialize lib (VTable a t) = Table_serialize lib t"
| "Table_serialize lib (Table d arr) =
     (if arr then ''['' @ array_out lib True d @ '']''
      else ''{'' @ map_out lib True d @ ''}'')"
| "array_out lib first [] = []"
| "array_out lib first ((k, v) # ps) =
     (if \<not> first then '','' else []) @ serialize lib v @ array_out lib False ps"
| "map_out lib first [] = []"
| "map_out lib first ((k, v) # ps) =
     (if \<not> first then '','' else []) @ serialize lib k @ ''='' @ serialize lib v
       @ map_out lib False ps"
  by pat_completeness auto

termination
  apply (relation "measure (\<lambda>x. case x of
        Inl (Inl (lib, v)) \<Rightarrow> size v
      | Inl (Inr (lib, t)) \<Rightarrow> size t
      | Inr (Inl (lib, first, ps)) \<Rightarrow> size_list (size_prod size size) ps
      | Inr (Inr (lib, first, ps)) \<Rightarrow> size_list (size_prod size size) ps)")
  apply simp_all
  done

section \<open>Facts about trimming, for the termination of the parser\<close>

lemma find_first_not_of_drop:
  "erase s 0 (find_first_not_of s cs) = dropWhile (\<lambda>c. c \<in> set cs) s"
proof (induction s)
  case Nil
  then show ?case by (simp add: erase_def)
next
  case (Cons x xs)
  then show ?case
    by (cases "find_first_not_of xs cs") (auto simp: erase_def)
qed

lemma find_last_not_of_take:
  "erase s (case find_last_not_of s cs of None \<Rightarrow> 0 | Some i \<Rightarrow> i + 1) None
     = rev (dropWhile (\<lambda>c. c \<in> set cs) (rev s))"
proof -
  have e: "erase (rev s) 0 (find_first_not_of (rev s) cs) = dropWhile (\<lambda>c. c \<in> set cs) (rev s)"
    by (rule find_first_not_of_drop)
  have lt: "\<And>t i. find_first_not_of t cs = Some i \<Longrightarrow> i < length t"
  proof -
    fix t :: string and i
    show "find_first_not_of t cs = Some i \<Longrightarrow> i < length t"
      by (induction t arbitrary: i) (auto split: if_splits)
  qed
  show ?thesis
  proof (cases "find_first_not_of (rev s) cs")
    case None
    with e show ?thesis by (simp add: find_last_not_of_def erase_def)
  next
    case (Some i)
    with lt have "i < length s" by fastforce
    then have "Suc (length s - 1 - i) = length s - i" by simp
    moreover have "rev (drop i (rev s)) = take (length s - i) s"
      by (simp add: rev_drop)
    moreover from Some e have "drop i (rev s) = dropWhile (\<lambda>c. c \<in> set cs) (rev s)"
      by (simp add: erase_def)
    ultimately show ?thesis
      using Some by (simp add: find_last_not_of_def erase_def)
  qed
qed

lemma trim_dropWhile: "trim s = rev (dropWhile blank (rev (dropWhile blank s)))"
  unfolding trim_def Let_def find_first_not_of_drop find_last_not_of_take blank_def ..

lemma length_trim: "length (trim s) \<le> length s"
proof -
  have "length (trim s) \<le> length (dropWhile blank s)"
    unfolding trim_dropWhile
    using length_dropWhile_le [of blank "rev (dropWhile blank s)"] by simp
  also have "\<dots> \<le> length s" by (rule length_dropWhile_le)
  finally show ?thesis .
qed

lemma find_char_less: "find_char s c = Some i \<Longrightarrow> i < length s"
  by (induction s arbitrary: i) (auto split: if_splits)

lemma length_trim_drop: "length (trim (drop k (trim s))) \<le> length s"
proof -
  have "length (trim (drop k (trim s))) \<le> length (drop k (trim s))"
    by (rule length_trim)
  also have "\<dots> \<le> length (trim s)" by simp
  also have "\<dots> \<le> length s" by (rule length_trim)
  finally show ?thesis .
qed

lemma length_trim_take: "length (trim (take k (trim s))) \<le> length s"
proof -
  have "length (trim (take k (trim s))) \<le> length (take k (trim s))"
    by (rule length_trim)
  also have "\<dots> \<le> length (trim s)" by simp
  also have "\<dots> \<le> length s" by (rule length_trim)
  finally show ?thesis .
qed

section \<open>Parser\<close>

text \<open>
  \<^verbatim>\<open>Value::deserialize\<close> and \<^verbatim>\<open>Table::deserialize\<close>. A result is the error thrown
  or the value returned.

  \<^verbatim>\<open>Value(const Table&)\<close> allocates the shared table with \<^verbatim>\<open>make_shared\<close>. The
  parser therefore threads the number \<open>n\<close> of tables allocated so far, and the next
  one gets the address \<open>n\<close>. What this keeps of the allocator is that two tables alive
  at once have two addresses; which of the two is the smaller is the allocator's choice.

  The loops of \<^verbatim>\<open>Table::deserialize\<close> scan \<^verbatim>\<open>content\<close> once. \<open>array_loop\<close> and
  \<open>object_loop\<close> take the characters still to scan (\<^verbatim>\<open>content\<close> from index \<^verbatim>\<open>i\<close>
  on), the characters between \<^verbatim>\<open>pos\<close> and \<^verbatim>\<open>i\<close> (what
  \<^verbatim>\<open>content.substr(pos, i - pos)\<close> would be), \<^verbatim>\<open>depth\<close> and the container filled so
  far; when nothing is left to scan the second argument is \<^verbatim>\<open>content.substr(pos)\<close>.
  The header writes out the treatment of an item twice, inside the loop and after it,
  with the same statements: \<open>array_item\<close> and \<open>object_item\<close>.

  In \<^verbatim>\<open>map[Value::deserialize(key)] = Value::deserialize(value)\<close> the right operand is
  evaluated first (C++17), so the value is parsed before the key.
\<close>

function deserialize :: "'f float_lib \<Rightarrow> string \<Rightarrow> nat \<Rightarrow> error + ('f Value \<times> nat)"
  and Table_deserialize :: "'f float_lib \<Rightarrow> string \<Rightarrow> nat \<Rightarrow> error + ('f Table \<times> nat)"
  and array_item :: "'f float_lib \<Rightarrow> string \<Rightarrow> 'f Value list \<Rightarrow> nat \<Rightarrow> error + ('f Value list \<times> nat)"
  and array_loop :: "'f float_lib \<Rightarrow> string \<Rightarrow> string \<Rightarrow> int \<Rightarrow> 'f Value list \<Rightarrow> nat
                      \<Rightarrow> error + ('f Value list \<times> nat)"
  and object_item :: "'f float_lib \<Rightarrow> string \<Rightarrow> 'f pairs \<Rightarrow> nat \<Rightarrow> error + ('f pairs \<times> nat)"
  and object_loop :: "'f float_lib \<Rightarrow> string \<Rightarrow> string \<Rightarrow> int \<Rightarrow> 'f pairs \<Rightarrow> nat
                      \<Rightarrow> error + ('f pairs \<times> nat)"
where
  "deserialize lib data n =
     (if data = [] then Inl EmptyData
      else case (if find_char data CHR ''.'' \<noteq> None then map_option VFloat (stof lib data)
                 else map_option VInt (stoi data)) of
        Some v \<Rightarrow> Inr (v, n)
      | None \<Rightarrow>
          if data = ''true'' then Inr (VBool True, n)
          else if data = ''false'' then Inr (VBool False, n)
          else if length data \<ge> 2 \<and> hd data = CHR 0x22 \<and> last data = CHR 0x22
            then Inr (VString (substr data 1 (length data - 2)), n)
          else if hd data = CHR ''['' \<or> hd data = CHR ''{''
            then (case Table_deserialize lib data n of
                    Inl e \<Rightarrow> Inl e
                  | Inr (t, n') \<Rightarrow> Inr (VTable n' t, Suc n'))
          else Inr (VString data, n))"
| "Table_deserialize lib data n =
     (if data = [] then Inl EmptyData
      else if hd data = CHR ''['' then
        (if length data < 2 \<or> last data \<noteq> CHR '']'' then Inl MalformedArray
         else if length data = 2 then Inr (Table_of_vector lib [], n)
         else (case array_loop lib (substr data 1 (length data - 2)) [] 0 [] n of
                 Inl e \<Rightarrow> Inl e
               | Inr (vec, n') \<Rightarrow> Inr (Table_of_vector lib vec, n')))
      else if hd data = CHR ''{'' then
        (if length data < 2 \<or> last data \<noteq> CHR ''}'' then Inl MalformedTable
         else if length data = 2 then Inr (Table_default, n)
         else (case object_loop lib (substr data 1 (length data - 2)) [] 0 [] n of
                 Inl e \<Rightarrow> Inl e
               | Inr (m, n') \<Rightarrow> Inr (Table_of_map m, n')))
      else Inl UnknownType)"
| "array_item lib item vec n =
     (if item \<noteq> [] then
        (if trim item \<noteq> [] then
           (case deserialize lib (trim item) n of
              Inl e \<Rightarrow> Inl e
            | Inr (v, n') \<Rightarrow> Inr (vec @ [v], n'))
         else Inr (vec, n))
      else Inr (vec, n))"
| "array_loop lib [] item depth vec n = array_item lib item vec n"
| "array_loop lib (c # rest) item depth vec n =
     (if c = CHR ''['' \<or> c = CHR ''{'' then array_loop lib rest (item @ [c]) (depth + 1) vec n
      else if c = CHR '']'' \<or> c = CHR ''}'' then array_loop lib rest (item @ [c]) (depth - 1) vec n
      else if c = CHR '','' \<and> depth = 0 then
        (case array_item lib item vec n of
           Inl e \<Rightarrow> Inl e
         | Inr (vec', n') \<Rightarrow> array_loop lib rest [] depth vec' n')
      else array_loop lib rest (item @ [c]) depth vec n)"
| "object_item lib item m n =
     (if item \<noteq> [] then
        (if trim item \<noteq> [] then
           (case find_char (trim item) CHR ''='' of
              None \<Rightarrow> Inl MissingEquals
            | Some equals \<Rightarrow>
                if trim (substr (trim item) 0 equals) \<noteq> [] \<and> trim (drop (equals + 1) (trim item)) \<noteq> []
                then (case deserialize lib (trim (drop (equals + 1) (trim item))) n of
                        Inl e \<Rightarrow> Inl e
                      | Inr (v, n1) \<Rightarrow>
                          (case deserialize lib (trim (substr (trim item) 0 equals)) n1 of
                             Inl e \<Rightarrow> Inl e
                           | Inr (k, n2) \<Rightarrow> Inr (map_set lib k v m, n2)))
                else Inr (m, n))
         else Inr (m, n))
      else Inr (m, n))"
| "object_loop lib [] item depth m n = object_item lib item m n"
| "object_loop lib (c # rest) item depth m n =
     (if c = CHR ''['' \<or> c = CHR ''{'' then object_loop lib rest (item @ [c]) (depth + 1) m n
      else if c = CHR '']'' \<or> c = CHR ''}'' then object_loop lib rest (item @ [c]) (depth - 1) m n
      else if c = CHR '','' \<and> depth = 0 then
        (case object_item lib item m n of
           Inl e \<Rightarrow> Inl e
         | Inr (m', n') \<Rightarrow> object_loop lib rest [] depth m' n')
      else object_loop lib rest (item @ [c]) depth m n)"
  by pat_completeness auto

termination
proof (relation "measures [
     (\<lambda>x. case x of
        Inl (Inl (lib, d, n)) \<Rightarrow> length d
      | Inl (Inr (Inl (lib, d, n))) \<Rightarrow> length d
      | Inl (Inr (Inr (lib, item, vec, n))) \<Rightarrow> length item
      | Inr (Inl (lib, rest, item, depth, vec, n)) \<Rightarrow> length rest + length item
      | Inr (Inr (Inl (lib, item, m, n))) \<Rightarrow> length item
      | Inr (Inr (Inr (lib, rest, item, depth, m, n))) \<Rightarrow> length rest + length item),
     (\<lambda>x. case x of
        Inl (Inl (lib, d, n)) \<Rightarrow> 1
      | Inl (Inr (Inl (lib, d, n))) \<Rightarrow> 0
      | Inl (Inr (Inr (lib, item, vec, n))) \<Rightarrow> 2
      | Inr (Inl (lib, rest, item, depth, vec, n)) \<Rightarrow> length rest + 3
      | Inr (Inr (Inl (lib, item, m, n))) \<Rightarrow> 2
      | Inr (Inr (Inr (lib, rest, item, depth, m, n))) \<Rightarrow> length rest + 3)]",
    goal_cases)
qed (simp_all add: substr_def le_imp_less_or_eq length_trim length_trim_drop
      length_trim_take)

text \<open>
  The equations of the four functions without a pattern are unfolded by hand.
\<close>

declare deserialize.simps [simp del] Table_deserialize.simps [simp del]
  array_item.simps [simp del] object_item.simps [simp del]

lemmas parser_simps = deserialize.simps Table_deserialize.simps array_item.simps object_item.simps

lemmas eval_defs = stoi_def strip_sign_def isspace_def isdigit_def digit_chars_def digits_val_def
  digit_val_def substr_def trim_dropWhile blank_def blank_chars_def Table_of_vector_def
  Table_default_def Table_of_map_def Let_def

section \<open>An instance of the float operations\<close>

text \<open>
  To run the definitions on concrete inputs, the float operations are instantiated with
  decimal numbers of one fractional digit: the integer \<open>t\<close> stands for \<open>t / 10\<close>. The
  texts are those of the header (\<^verbatim>\<open>42.0\<close>, \<^verbatim>\<open>-42.5\<close>, \<^verbatim>\<open>0.1\<close>); the rounding of
  32-bit floats is not part of it. Every theorem below is proved for all float
  operations; this instance only serves the concrete examples.
\<close>

definition tenths_of_text :: "string \<Rightarrow> int option" where
  "tenths_of_text s =
     (let (neg, u) = strip_sign (dropWhile isspace s);
          r = dropWhile isdigit u;
          fd = (case r of
                  c # d # _ \<Rightarrow> if c = CHR ''.'' \<and> isdigit d then digit_val d else 0
                | _ \<Rightarrow> 0);
          t = int (10 * digits_val (takeWhile isdigit u) + fd)
      in Some (if neg then - t else t))"

definition tenths_text :: "int \<Rightarrow> string" where
  "tenths_text t =
     (if t < 0 then ''-'' else []) @ show_nat (nat \<bar>t\<bar> div 10) @ ''.''
       @ [digit_char (nat \<bar>t\<bar> mod 10)]"

definition tenths_lib :: "int float_lib" where
  "tenths_lib = \<lparr> strtof = tenths_of_text, put_float = tenths_text,
                  float_less = (<), float_eq = (=) \<rparr>"

section \<open>Notions used in the statements\<close>

subsection \<open>Array tables\<close>

text \<open>
  The key of the element at index \<open>i\<close>, \<^verbatim>\<open>Value(static_cast<int>(i))\<close>, and the
  invariant of array mode: the keys of the map are the keys of \<open>0, 1, \<dots>, n - 1\<close>, in
  this order.
\<close>

definition index_key :: "nat \<Rightarrow> 'f Value" where
  "index_key i = VInt (word_of_nat i)"

definition array_invariant :: "'f Table \<Rightarrow> bool" where
  "array_invariant t =
     (is_array t \<longrightarrow> map fst (table_data t) = map index_key [0..<length (table_data t)])"

subsection \<open>Maps built by insertion, and their text\<close>

text \<open>
  \<open>map_of_inserts lib kvs\<close> is the \<^verbatim>\<open>std::map\<close> that starts empty and receives
  \<^verbatim>\<open>m[k] = v\<close> for the pairs of \<open>kvs\<close> in turn. \<open>join\<close> puts a separator between the
  texts of a list, and nowhere else. \<open>float_less_trans\<close> says that \<^verbatim>\<open><\<close> on floats is
  transitive.
\<close>

definition map_of_inserts :: "'f float_lib \<Rightarrow> 'f pairs \<Rightarrow> 'f pairs" where
  "map_of_inserts lib kvs = foldl (\<lambda>m (k, v). map_set lib k v m) [] kvs"

fun join :: "string \<Rightarrow> string list \<Rightarrow> string" where
  "join sep [] = []"
| "join sep [x] = x"
| "join sep (x # y # ys) = x @ sep @ join sep (y # ys)"

definition entry_text :: "'f float_lib \<Rightarrow> 'f Value \<times> 'f Value \<Rightarrow> string" where
  "entry_text lib p = serialize lib (fst p) @ ''='' @ serialize lib (snd p)"

definition float_less_trans :: "'f float_lib \<Rightarrow> bool" where
  "float_less_trans lib = (\<forall>a b c. float_less lib a b \<longrightarrow> float_less lib b c \<longrightarrow> float_less lib a c)"

subsection \<open>The scan of the interior of a table\<close>

text \<open>
  \<open>depth_after d s\<close> is the value of \<^verbatim>\<open>depth\<close> when the loop of \<^verbatim>\<open>Table::deserialize\<close>
  has scanned \<open>s\<close>, having started at the value \<open>d\<close>.
\<close>

fun depth_after :: "int \<Rightarrow> string \<Rightarrow> int" where
  "depth_after d [] = d"
| "depth_after d (c # s) =
     (if c = CHR ''['' \<or> c = CHR ''{'' then depth_after (d + 1) s
      else if c = CHR '']'' \<or> c = CHR ''}'' then depth_after (d - 1) s
      else depth_after d s)"

subsection \<open>The dispatch of \<^verbatim>\<open>Value::deserialize\<close>, after the specification\<close>

text \<open>
  The specification describes the dispatch as a chain of attempts in a fixed order, the
  first that applies giving the result: a number (a float when the fragment contains a
  point, an integer otherwise), one of the literals \<^verbatim>\<open>true\<close> and \<^verbatim>\<open>false\<close>, a quoted
  string, a table when the fragment starts with a bracket; when none applies the
  fragment itself is the string.
\<close>

type_synonym 'f result = "error + ('f Value \<times> nat)"

definition try_number :: "'f float_lib \<Rightarrow> string \<Rightarrow> nat \<Rightarrow> 'f result option" where
  "try_number lib s n =
     (if CHR ''.'' \<in> set s then map_option (\<lambda>f. Inr (VFloat f, n)) (stof lib s)
      else map_option (\<lambda>i. Inr (VInt i, n)) (stoi s))"

definition try_literal :: "'f float_lib \<Rightarrow> string \<Rightarrow> nat \<Rightarrow> 'f result option" where
  "try_literal lib s n =
     (if s = ''true'' then Some (Inr (VBool True, n))
      else if s = ''false'' then Some (Inr (VBool False, n))
      else None)"

definition try_quoted :: "'f float_lib \<Rightarrow> string \<Rightarrow> nat \<Rightarrow> 'f result option" where
  "try_quoted lib s n =
     (case s of
        [] \<Rightarrow> None
      | q # r \<Rightarrow> if q = CHR 0x22 \<and> r \<noteq> [] \<and> last r = CHR 0x22
                 then Some (Inr (VString (butlast r), n)) else None)"

definition try_table :: "'f float_lib \<Rightarrow> string \<Rightarrow> nat \<Rightarrow> 'f result option" where
  "try_table lib s n =
     (case s of
        [] \<Rightarrow> None
      | c # _ \<Rightarrow> if c = CHR ''['' \<or> c = CHR ''{''
                 then Some (case Table_deserialize lib s n of
                              Inl e \<Rightarrow> Inl e
                            | Inr (t, n') \<Rightarrow> Inr (VTable n' t, Suc n'))
                 else None)"

fun first_success :: "('f float_lib \<Rightarrow> string \<Rightarrow> nat \<Rightarrow> 'f result option) list
    \<Rightarrow> 'f float_lib \<Rightarrow> string \<Rightarrow> nat \<Rightarrow> 'f result option" where
  "first_success [] lib s n = None"
| "first_success (a # as) lib s n =
     (case a lib s n of Some r \<Rightarrow> Some r | None \<Rightarrow> first_success as lib s n)"

definition dispatch :: "'f float_lib \<Rightarrow> string \<Rightarrow> nat \<Rightarrow> 'f result" where
  "dispatch lib s n =
     (case first_success [try_number, try_literal, try_quoted, try_table] lib s n of
        Some r \<Rightarrow> r
      | None \<Rightarrow> Inr (VString s, n))"

subsection \<open>The segments of the interior\<close>

text \<open>
  \<open>segments rest item d\<close> lists the items the scan hands over, in order: the value of
  \<^verbatim>\<open>item\<close> at every comma met at depth 0, and the final one. \<open>array_items\<close> and
  \<open>object_items\<close> treat the items of a list in turn and stop at the first error.
  \<open>content s\<close> is the interior \<^verbatim>\<open>data.substr(1, data.length() - 2)\<close>, and \<open>swap_kind\<close>
  exchanges square brackets and braces.
\<close>

fun segments :: "string \<Rightarrow> string \<Rightarrow> int \<Rightarrow> string list" where
  "segments [] item d = [item]"
| "segments (c # rest) item d =
     (if c = CHR ''['' \<or> c = CHR ''{'' then segments rest (item @ [c]) (d + 1)
      else if c = CHR '']'' \<or> c = CHR ''}'' then segments rest (item @ [c]) (d - 1)
      else if c = CHR '','' \<and> d = 0 then item # segments rest [] d
      else segments rest (item @ [c]) d)"

fun array_items :: "'f float_lib \<Rightarrow> string list \<Rightarrow> 'f Value list \<Rightarrow> nat
    \<Rightarrow> error + ('f Value list \<times> nat)" where
  "array_items lib [] vec n = Inr (vec, n)"
| "array_items lib (item # items) vec n =
     (case array_item lib item vec n of
        Inl e \<Rightarrow> Inl e
      | Inr (vec', n') \<Rightarrow> array_items lib items vec' n')"

fun object_items :: "'f float_lib \<Rightarrow> string list \<Rightarrow> 'f pairs \<Rightarrow> nat
    \<Rightarrow> error + ('f pairs \<times> nat)" where
  "object_items lib [] m n = Inr (m, n)"
| "object_items lib (item # items) m n =
     (case object_item lib item m n of
        Inl e \<Rightarrow> Inl e
      | Inr (m', n') \<Rightarrow> object_items lib items m' n')"

definition swap_kind :: "char \<Rightarrow> char" where
  "swap_kind c =
     (if c = CHR ''['' then CHR ''{'' else if c = CHR ''{'' then CHR ''[''
      else if c = CHR '']'' then CHR ''}'' else if c = CHR ''}'' then CHR '']'' else c)"

definition content :: "string \<Rightarrow> string" where
  "content s = substr s 1 (length s - 2)"

subsection \<open>Failures, after the specification\<close>

text \<open>
  A fragment lacks its closing bracket when it is shorter than two characters or its last
  character is not the closing bracket of the kind of its first character. An entry of
  an object fails when it has no \<^verbatim>\<open>=\<close>, or when both of its sides are non-empty once
  trimmed and the parsing of one of them fails.
\<close>

definition closing :: "char \<Rightarrow> char" where
  "closing c = (if c = CHR ''['' then CHR '']'' else CHR ''}'')"

definition lacks_closing :: "string \<Rightarrow> bool" where
  "lacks_closing s = (length s < 2 \<or> last s \<noteq> closing (hd s))"

definition entry_fails :: "'f float_lib \<Rightarrow> string \<Rightarrow> nat \<Rightarrow> bool" where
  "entry_fails lib e n =
     (case find_char e CHR ''='' of
        None \<Rightarrow> True
      | Some i \<Rightarrow>
          trim (substr e 0 i) \<noteq> [] \<and> trim (drop (i + 1) e) \<noteq> []
          \<and> (isl (deserialize lib (trim (drop (i + 1) e)) n)
               \<or> isl (deserialize lib (trim (substr e 0 i)) n)))"

subsection \<open>Entries of an object, after the specification\<close>

text \<open>
  The specification: the first \<^verbatim>\<open>=\<close> of the segment splits the key text from the
  value text, and both sides are trimmed and parsed as values. \<open>parse_entry\<close> parses the
  value before the key, as the parser does, and stores the pair.
\<close>

definition key_text :: "string \<Rightarrow> string" where
  "key_text e = takeWhile (\<lambda>c. c \<noteq> CHR ''='') e"

definition value_text :: "string \<Rightarrow> string" where
  "value_text e = drop 1 (dropWhile (\<lambda>c. c \<noteq> CHR ''='') e)"

definition parse_entry :: "'f float_lib \<Rightarrow> string \<Rightarrow> 'f pairs \<Rightarrow> nat
    \<Rightarrow> error + ('f pairs \<times> nat)" where
  "parse_entry lib e m n =
     (case deserialize lib (trim (value_text e)) n of
        Inl x \<Rightarrow> Inl x
      | Inr (v, n1) \<Rightarrow>
          (case deserialize lib (trim (key_text e)) n1 of
             Inl x \<Rightarrow> Inl x
           | Inr (k, n2) \<Rightarrow> Inr (map_set lib k v m, n2)))"

subsection \<open>The round trip\<close>

text \<open>
  What a value has to satisfy for its text to be read back.
  \<^item> A string inside a table contains no double quote and none of the characters
    \<^verbatim>\<open>, [ ] { }\<close> that the scan of the interior interprets (\<open>plain\<close>); a string that is
    a key contains no \<^verbatim>\<open>=\<close> either.
  \<^item> The text of a float is a decimal numeral with a point that \<^verbatim>\<open>std::stof\<close> converts
    to a float with the same text (\<open>float_text_ok\<close>).
  \<^item> The keys of a map are not tables, and read back (\<open>reparsed\<close>: a float key becomes
    the float its text denotes, every other key stays) they are still strictly
    ascending. For keys that are not floats this says that the list is a
    \<^verbatim>\<open>std::map\<close>: its keys are strictly ascending.
  \<^item> An array has at most \<open>2^31\<close> elements.
  At top level a string only has to be free of double quotes.
\<close>

definition plain :: "string \<Rightarrow> bool" where
  "plain s = list_all (\<lambda>c. c \<notin> set '',[]{}'') s"

definition float_text_ok :: "'f float_lib \<Rightarrow> 'f \<Rightarrow> bool" where
  "float_text_ok lib f =
     (CHR ''.'' \<in> set (put_float lib f)
      \<and> list_all (\<lambda>c. c \<in> set ''0123456789.-'') (put_float lib f)
      \<and> (case stof lib (put_float lib f) of
            None \<Rightarrow> False
          | Some g \<Rightarrow> put_float lib g = put_float lib f))"

definition reparsed :: "'f float_lib \<Rightarrow> 'f Value \<Rightarrow> 'f Value" where
  "reparsed lib v =
     (case v of
        VFloat f \<Rightarrow> (case stof lib (put_float lib f) of Some g \<Rightarrow> VFloat g | None \<Rightarrow> v)
      | _ \<Rightarrow> v)"

definition scalar_ok :: "'f float_lib \<Rightarrow> 'f Value \<Rightarrow> bool" where
  "scalar_ok lib v =
     (case v of
        VInt i \<Rightarrow> True
      | VFloat f \<Rightarrow> float_text_ok lib f
      | VBool b \<Rightarrow> True
      | VString s \<Rightarrow> CHR 0x22 \<notin> set s \<and> plain s
      | VTable a t \<Rightarrow> False)"

definition key_ok :: "'f float_lib \<Rightarrow> 'f Value \<Rightarrow> bool" where
  "key_ok lib k =
     (scalar_ok lib k \<and> (case k of VString s \<Rightarrow> CHR ''='' \<notin> set s | _ \<Rightarrow> True))"

fun ascending :: "'f float_lib \<Rightarrow> 'f Value list \<Rightarrow> bool" where
  "ascending lib [] = True"
| "ascending lib (k # ks) =
     (list_all (\<lambda>x. value_less lib k x \<and> \<not> value_less lib x k) ks \<and> ascending lib ks)"

function (sequential) nested_ok :: "'f float_lib \<Rightarrow> 'f Value \<Rightarrow> bool"
  and table_ok :: "'f float_lib \<Rightarrow> 'f Table \<Rightarrow> bool"
  and values_ok :: "'f float_lib \<Rightarrow> 'f pairs \<Rightarrow> bool"
  and entries_ok :: "'f float_lib \<Rightarrow> 'f pairs \<Rightarrow> bool"
where
  "nested_ok lib (VTable a t) = table_ok lib t"
| "nested_ok lib v = scalar_ok lib v"
| "table_ok lib (Table d arr) =
     (if arr then length d \<le> 2 ^ 31 \<and> values_ok lib d
      else entries_ok lib d \<and> ascending lib (map (\<lambda>p. reparsed lib (fst p)) d))"
| "values_ok lib [] = True"
| "values_ok lib ((k, v) # ps) = (nested_ok lib v \<and> values_ok lib ps)"
| "entries_ok lib [] = True"
| "entries_ok lib ((k, v) # ps) = (key_ok lib k \<and> nested_ok lib v \<and> entries_ok lib ps)"
  by pat_completeness auto

termination
  apply (relation "measure (\<lambda>x. case x of
        Inl (Inl (lib, v)) \<Rightarrow> size v
      | Inl (Inr (lib, t)) \<Rightarrow> size t
      | Inr (Inl (lib, ps)) \<Rightarrow> size_list (size_prod size size) ps
      | Inr (Inr (lib, ps)) \<Rightarrow> size_list (size_prod size size) ps)")
  apply simp_all
  done

definition roundtrip_ok :: "'f float_lib \<Rightarrow> 'f Value \<Rightarrow> bool" where
  "roundtrip_ok lib v =
     (case v of VString s \<Rightarrow> CHR 0x22 \<notin> set s | _ \<Rightarrow> nested_ok lib v)"

text \<open>
  \<open>same_content\<close> compares two values by variant and content: integers, booleans and
  strings by equality, floats by their text of one decimal, tables by their mode and
  element by element (the values of an array in order, the keys and values of a map in
  order). The address of a table is not compared.
\<close>

function same_content :: "'f float_lib \<Rightarrow> 'f Value \<Rightarrow> 'f Value \<Rightarrow> bool"
  and same_table :: "'f float_lib \<Rightarrow> 'f Table \<Rightarrow> 'f Table \<Rightarrow> bool"
  and same_values :: "'f float_lib \<Rightarrow> 'f pairs \<Rightarrow> 'f pairs \<Rightarrow> bool"
  and same_entries :: "'f float_lib \<Rightarrow> 'f pairs \<Rightarrow> 'f pairs \<Rightarrow> bool"
where
  "same_content lib (VInt i) w = (w = VInt i)"
| "same_content lib (VFloat f) w =
     (case w of VFloat g \<Rightarrow> put_float lib f = put_float lib g | _ \<Rightarrow> False)"
| "same_content lib (VBool b) w = (w = VBool b)"
| "same_content lib (VString s) w = (w = VString s)"
| "same_content lib (VTable a t) w =
     (case w of VTable b u \<Rightarrow> same_table lib t u | _ \<Rightarrow> False)"
| "same_table lib (Table d arr) u =
     (is_array u = arr
      \<and> (if arr then same_values lib d (table_data u) else same_entries lib d (table_data u)))"
| "same_values lib [] qs = (qs = [])"
| "same_values lib ((k, v) # ps) qs =
     (case qs of
        [] \<Rightarrow> False
      | q # qs' \<Rightarrow> same_content lib v (snd q) \<and> same_values lib ps qs')"
| "same_entries lib [] qs = (qs = [])"
| "same_entries lib ((k, v) # ps) qs =
     (case qs of
        [] \<Rightarrow> False
      | q # qs' \<Rightarrow> same_content lib k (fst q) \<and> same_content lib v (snd q)
                     \<and> same_entries lib ps qs')"
  by pat_completeness auto

termination
  apply (relation "measure (\<lambda>x. case x of
        Inl (Inl (lib, v, w)) \<Rightarrow> size v
      | Inl (Inr (lib, t, u)) \<Rightarrow> size t
      | Inr (Inl (lib, ps, qs)) \<Rightarrow> size_list (size_prod size size) ps
      | Inr (Inr (lib, ps, qs)) \<Rightarrow> size_list (size_prod size size) ps)")
  apply simp_all
  done

text \<open>
  Properties of a text under the scan: \<open>quiet d s\<close>, the scan of \<open>s\<close> from depth \<open>d\<close>
  meets no comma at depth 0; \<open>balanced\<close>, from any depth that is not negative the scan
  is quiet and ends at the depth it started from; \<open>inner\<close>, the same from any positive
  depth; \<open>tight\<close>, the text is not empty and neither starts nor ends with a blank;
  \<open>numeric_text\<close>, the text consists of digits, points and minus signs.
\<close>

fun quiet :: "int \<Rightarrow> string \<Rightarrow> bool" where
  "quiet d [] = True"
| "quiet d (c # s) =
     (if c = CHR ''['' \<or> c = CHR ''{'' then quiet (d + 1) s
      else if c = CHR '']'' \<or> c = CHR ''}'' then quiet (d - 1) s
      else if c = CHR '','' \<and> d = 0 then False
      else quiet d s)"

definition balanced :: "string \<Rightarrow> bool" where
  "balanced s = (\<forall>d\<ge>0. quiet d s \<and> depth_after d s = d)"

definition inner :: "string \<Rightarrow> bool" where
  "inner s = (\<forall>d>0. quiet d s \<and> depth_after d s = d)"

definition tight :: "string \<Rightarrow> bool" where
  "tight s = (s \<noteq> [] \<and> \<not> blank (hd s) \<and> \<not> blank (last s))"


definition numeric_text :: "string \<Rightarrow> bool" where
  "numeric_text s = list_all (\<lambda>c. c \<in> set ''0123456789.-'') s"

section \<open>The order and the equality of values\<close>

lemma string_less_lexord:
  "string_less s t \<longleftrightarrow> (map of_char s, map of_char t) \<in> lexord {(x :: nat, y). x < y}"
  by (induction s t rule: string_less.induct) auto

text \<open>
  C4. \<^verbatim>\<open>operator<\<close> compares two values of different variants by the index of the
  variant, in the order Int, Float, Bool, String, Table of the declaration, and two
  values of the same variant by their contents: integers as signed numbers, floats by
  the float comparison, \<open>false\<close> before \<open>true\<close>, strings lexicographically by
  character code. Two table values are ordered by their addresses and are equal exactly
  when their addresses are: two tables with the same contents at two addresses are not
  equal. \<^verbatim>\<open>operator==\<close> follows the same cases.
\<close>

theorem value_order:
  "(index a \<noteq> index b \<longrightarrow>
      value_less lib a b = (index a < index b) \<and> \<not> value_eq lib a b)
   \<and> index (VInt i) < index (VFloat f) \<and> index (VFloat f) < index (VBool c)
   \<and> index (VBool c) < index (VString s) \<and> index (VString s) < index (VTable p t)
   \<and> value_less lib (VInt i) (VInt j) = (sint i < sint j)
   \<and> value_less lib (VFloat f) (VFloat g) = float_less lib f g
   \<and> value_less lib (VBool c) (VBool d) = (\<not> c \<and> d)
   \<and> value_less lib (VString s) (VString r)
        = ((map of_char s, map of_char r) \<in> lexord {(x :: nat, y). x < y})
   \<and> value_less lib (VTable p t) (VTable q u) = (p < q)
   \<and> value_eq lib (VInt i) (VInt j) = (i = j)
   \<and> value_eq lib (VFloat f) (VFloat g) = float_eq lib f g
   \<and> value_eq lib (VBool c) (VBool d) = (c = d)
   \<and> value_eq lib (VString s) (VString r) = (s = r)
   \<and> value_eq lib (VTable p t) (VTable q u) = (p = q)
   \<and> (p \<noteq> q \<longrightarrow> \<not> value_eq lib (VTable p t) (VTable q t))"
  by (simp add: value_less_def value_eq_def is_int_def is_float_def is_bool_def
      is_string_def is_table_def string_less_lexord)

theorem value_order_witness:
  "index (VInt 7 :: int Value) \<noteq> index (VString ''a'' :: int Value)
   \<and> value_less tenths_lib (VInt 7) (VString ''a'')
   \<and> \<not> value_eq tenths_lib (VInt 7) (VString ''a'')
   \<and> (0::nat) \<noteq> 1
   \<and> \<not> value_eq tenths_lib (VTable 0 (Table [] True)) (VTable 1 (Table [] True))"
  using value_order [of "VInt 7" "VString ''a''" tenths_lib 0 0 False "''''" 0
      "Table [] True" 0 0 False "''''" 1 "Table [] True"]
  by simp

section \<open>Array tables: construction and keyed access\<close>

lemma sint_index: "i < 2 ^ 31 \<Longrightarrow> sint (word_of_nat i :: 32 word) = int i"
proof -
  assume "i < 2 ^ 31"
  then have "int i < 2 ^ 31" by (metis of_nat_less_iff of_nat_numeral of_nat_power)
  have "sint (word_of_nat i :: 32 word) = (int i + 2 ^ 31) mod 2 ^ 32 - 2 ^ 31"
    using int_word_sint [of "int i", where 'a = 32] by simp
  also have "\<dots> = int i" using \<open>int i < 2 ^ 31\<close> by simp
  finally show ?thesis .
qed

lemma sint_eq: "sint (a :: 32 word) = sint b \<longleftrightarrow> a = b"
  by (rule word_eq_iff_signed [symmetric])

lemma value_less_VInt [simp]: "value_less lib (VInt a) (VInt b) = (sint a < sint b)"
  by (simp add: value_less_def is_int_def)

lemma value_less_VInt_other:
  "\<not> is_int k \<Longrightarrow> value_less lib (VInt a) k \<and> \<not> value_less lib k (VInt a)"
  by (cases k) (simp_all add: value_less_def is_int_def)

lemma VInt_equivalent:
  assumes "\<not> value_less lib k (VInt b)" and "\<not> value_less lib (VInt b) k"
  shows "k = VInt b"
proof (cases "is_int k")
  case True
  then obtain a where a: "k = VInt a" by (cases k) (simp_all add: is_int_def)
  with assms have "sint a = sint b" by simp
  then show ?thesis using a by (simp add: sint_eq)
next
  case False
  then show ?thesis using assms value_less_VInt_other by blast
qed

lemma index_key_less:
  "i < 2 ^ 31 \<Longrightarrow> j < 2 ^ 31 \<Longrightarrow> value_less lib (index_key i) (index_key j) = (i < j)"
  by (simp add: value_less_def index_key_def is_int_def sint_index)

lemma index_key_inject:
  "i < 2 ^ 31 \<Longrightarrow> j < 2 ^ 31 \<Longrightarrow> (index_key i :: 'f Value) = index_key j \<longleftrightarrow> i = j"
  by (metis index_key_def Value.inject(1) sint_index of_nat_eq_iff)

lemma map_set_append:
  "\<forall>p \<in> set m. value_less lib (fst p) k \<and> \<not> value_less lib k (fst p)
     \<Longrightarrow> map_set lib k v m = m @ [(k, v)]"
  by (induction m) auto

lemma vector_loop_append:
  "i + length d \<le> 2 ^ 31 \<Longrightarrow> map fst m = map index_key [0..<i]
     \<Longrightarrow> vector_loop lib d i m = m @ zip (map index_key [i..<i + length d]) d"
proof (induction d arbitrary: i m)
  case Nil
  then show ?case by simp
next
  case (Cons x xs)
  have small: "i < 2 ^ 31" using Cons.prems(1) by simp
  have "\<forall>p \<in> set m. value_less lib (fst p) (index_key i) \<and> \<not> value_less lib (index_key i) (fst p)"
  proof
    fix p assume "p \<in> set m"
    then have "fst p \<in> set (map index_key [0..<i])" using Cons.prems(2) by (metis image_eqI list.set_map)
    then obtain j where j: "j < i" "fst p = index_key j" by auto
    with small show "value_less lib (fst p) (index_key i) \<and> \<not> value_less lib (index_key i) (fst p)"
      by (simp add: index_key_less)
  qed
  then have step: "map_set lib (index_key i) x m = m @ [(index_key i, x)]"
    by (rule map_set_append)
  have keys: "map fst (m @ [(index_key i, x)]) = map index_key [0..<Suc i]"
    using Cons.prems(2) by simp
  have "vector_loop lib (x # xs) i m = vector_loop lib xs (Suc i) (m @ [(index_key i, x)])"
    using step by (simp add: index_key_def)
  also have "\<dots> = (m @ [(index_key i, x)]) @ zip (map index_key [Suc i..<Suc i + length xs]) xs"
    using Cons.prems(1) keys by (intro Cons.IH) simp_all
  also have "\<dots> = m @ zip (map index_key (i # [Suc i..<Suc i + length xs])) (x # xs)"
    by simp
  also have "i # [Suc i..<Suc i + length xs] = [i..<i + length (x # xs)]"
    by (subst (2) upt_rec) simp
  finally show ?case .
qed

lemma Table_of_vector_data:
  "length d \<le> 2 ^ 31 \<Longrightarrow> table_data (Table_of_vector lib d) = zip (map index_key [0..<length d]) d"
  using vector_loop_append [of 0 d "[]" lib] by (simp add: Table_of_vector_def)

lemma subscript_present:
  "n \<le> 2 ^ 31 \<Longrightarrow> i + length m = n \<Longrightarrow> map fst m = map index_key [i..<n] \<Longrightarrow> i \<le> j \<Longrightarrow> j < n
     \<Longrightarrow> subscript lib (index_key j) m = m"
proof (induction m arbitrary: i)
  case Nil
  then show ?case by simp
next
  case (Cons p ps)
  obtain k v where p: "p = (k, v)" by (cases p)
  have "i < n" using Cons.prems by simp
  then have k: "k = index_key i" and rest: "map fst ps = map index_key [Suc i..<n]"
    using Cons.prems(3) p by (simp_all add: upt_rec [of i])
  show ?case
  proof (cases "j = i")
    case True
    then show ?thesis using p k Cons.prems by (simp add: index_key_less)
  next
    case False
    then have "Suc i \<le> j" using Cons.prems by simp
    then have "subscript lib (index_key j) ps = ps"
      using Cons.prems rest by (intro Cons.IH [of "Suc i"]) simp_all
    then show ?thesis using p k Cons.prems False by (simp add: index_key_less)
  qed
qed

lemma subscript_key: 
  "\<forall>p \<in> set m. is_int (fst p) \<Longrightarrow> k \<in> fst ` set (subscript lib k m)"
proof (induction m)
  case Nil
  then show ?case by simp
next
  case (Cons p ps)
  obtain k' v' where p: "p = (k', v')" by (cases p)
  then obtain i where k': "k' = VInt i" using Cons.prems by (cases k') (auto simp: is_int_def)
  show ?case
  proof (cases "value_less lib k k' \<or> value_less lib k' k")
    case True
    then show ?thesis using Cons p by auto
  next
    case False
    then have "k = k'" using k' VInt_equivalent by blast
    then show ?thesis using p False by simp
  qed
qed

lemma length_subscript:
  "k \<notin> fst ` set m \<Longrightarrow> \<forall>p \<in> set m. is_int (fst p) \<Longrightarrow> length (subscript lib k m) = Suc (length m)"
proof (induction m)
  case Nil
  then show ?case by simp
next
  case (Cons p ps)
  obtain k' v' where p: "p = (k', v')" by (cases p)
  then obtain i where k': "k' = VInt i" using Cons.prems by (cases k') (auto simp: is_int_def)
  have ne: "k \<noteq> k'" using Cons.prems p by auto
  then have "value_less lib k k' \<or> value_less lib k' k" using k' VInt_equivalent by blast
  then show ?case using Cons p by auto
qed


lemma subscript_append:
  "\<forall>p \<in> set m. value_less lib (fst p) k \<and> \<not> value_less lib k (fst p)
     \<Longrightarrow> subscript lib k m = m @ [(k, VInt 0)]"
  by (induction m) auto

lemma array_invariant_keys:
  assumes "array_invariant t" "is_array t"
  shows "map fst (table_data t) = map index_key [0..<length (table_data t)]"
  using assms by (simp add: array_invariant_def)

lemma subscript_insert:
  "k \<notin> fst ` set m \<Longrightarrow> \<forall>p \<in> set m. is_int (fst p)
     \<Longrightarrow> \<exists>xs ys. m = xs @ ys \<and> subscript lib k m = xs @ (k, VInt 0) # ys"
proof (induction m)
  case Nil
  then show ?case by simp
next
  case (Cons p ps)
  obtain k' v' where p: "p = (k', v')" by (cases p)
  then obtain i where k': "k' = VInt i" using Cons.prems by (cases k') (auto simp: is_int_def)
  have ne: "k \<noteq> k'" using Cons.prems p by auto
  show ?case
  proof (cases "value_less lib k k'")
    case True
    then have "p # ps = [] @ (p # ps) \<and> subscript lib k (p # ps) = [] @ (k, VInt 0) # (p # ps)"
      using p by simp
    then show ?thesis by blast
  next
    case False
    with ne k' have after: "value_less lib k' k" using VInt_equivalent by blast
    from Cons obtain xs ys where "ps = xs @ ys" "subscript lib k ps = xs @ (k, VInt 0) # ys"
      by auto
    with False after p
    have "p # ps = (p # xs) @ ys \<and> subscript lib k (p # ps) = (p # xs) @ (k, VInt 0) # ys"
      by simp
    then show ?thesis by blast
  qed
qed

text \<open>
  C9, amended. A table built from a sequence of \<open>n\<close> values (\<open>n\<close> at most \<open>2^31\<close>, so
  that the cast of the index does not wrap) is in array mode, its keys are exactly
  \<open>0, 1, \<dots>, n - 1\<close> in the order of the sequence, and \<^verbatim>\<open>get_data\<close> returns the
  sequence itself, of length \<open>n\<close> and in the original order. Keyed access
  (\<^verbatim>\<open>operator[]\<close>) never changes the mode of a table, and to a key that is present it
  leaves an array table as it is. Keyed access to an absent key inserts the key with the
  value 0 among the existing entries, which stay as they were and in their order, and the
  table stays in array mode; when the key is the next index \<open>n\<close> the new entry comes last
  and the invariant still holds, and for every other absent key the invariant is lost.
\<close>

theorem array_table_keys:
  "(length d \<le> 2 ^ 31 \<longrightarrow>
       table_data (Table_of_vector lib d) = zip (map index_key [0..<length d]) d
     \<and> array_invariant (Table_of_vector lib d)
     \<and> get_is_array (Table_of_vector lib d)
     \<and> get_data (Table_of_vector lib d) = Inr d)
   \<and> is_array (Table_subscript lib t k) = is_array t
   \<and> (array_invariant t \<and> is_array t \<and> length (table_data t) \<le> 2 ^ 31
        \<and> k \<in> fst ` set (table_data t) \<longrightarrow> Table_subscript lib t k = t)
   \<and> (array_invariant t \<and> is_array t \<and> length (table_data t) < 2 ^ 31
        \<and> k \<notin> fst ` set (table_data t) \<longrightarrow>
          is_array (Table_subscript lib t k)
        \<and> (\<exists>xs ys. table_data t = xs @ ys
              \<and> table_data (Table_subscript lib t k) = xs @ (k, VInt 0) # ys)
        \<and> length (table_data (Table_subscript lib t k)) = Suc (length (table_data t))
        \<and> k \<in> fst ` set (table_data (Table_subscript lib t k))
        \<and> (k = index_key (length (table_data t)) \<longrightarrow>
              Table_subscript lib t k = Table (table_data t @ [(k, VInt 0)]) True)
        \<and> (array_invariant (Table_subscript lib t k) \<longleftrightarrow> k = index_key (length (table_data t))))"
proof (intro conjI impI)
  assume d: "length d \<le> 2 ^ 31"
  then show data: "table_data (Table_of_vector lib d) = zip (map index_key [0..<length d]) d"
    by (rule Table_of_vector_data)
  then show "array_invariant (Table_of_vector lib d)"
    by (simp add: array_invariant_def)
  show "get_is_array (Table_of_vector lib d)"
    by (simp add: get_is_array_def Table_of_vector_def)
  show "get_data (Table_of_vector lib d) = Inr d"
    using data by (simp add: get_data_def Table_of_vector_def)
next
  show "is_array (Table_subscript lib t k) = is_array t"
    by (simp add: Table_subscript_def)
next
  assume a: "array_invariant t \<and> is_array t \<and> length (table_data t) \<le> 2 ^ 31
        \<and> k \<in> fst ` set (table_data t)"
  let ?m = "table_data t" and ?n = "length (table_data t)"
  from a have keys: "map fst ?m = map index_key [0..<?n]" by (simp add: array_invariant_keys)
  from a have "k \<in> set (map fst ?m)" by simp
  with keys obtain j where j: "j < ?n" "k = index_key j" by auto
  from a keys j have "subscript lib (index_key j) ?m = ?m"
    by (intro subscript_present [of ?n 0]) simp_all
  with j show "Table_subscript lib t k = t" by (simp add: Table_subscript_def)
next
  assume a: "array_invariant t \<and> is_array t \<and> length (table_data t) < 2 ^ 31
        \<and> k \<notin> fst ` set (table_data t)"
  let ?m = "table_data t" and ?n = "length (table_data t)"
  from a have keys: "map fst ?m = map index_key [0..<?n]" by (simp add: array_invariant_keys)
  have ints: "\<forall>p \<in> set ?m. is_int (fst p)"
  proof
    fix p assume "p \<in> set ?m"
    then have "fst p \<in> set (map fst ?m)" by simp
    with keys show "is_int (fst p)" by (auto simp: index_key_def is_int_def)
  qed
  from a show arr: "is_array (Table_subscript lib t k)" by (simp add: Table_subscript_def)
  from a ints show "\<exists>xs ys. table_data t = xs @ ys
              \<and> table_data (Table_subscript lib t k) = xs @ (k, VInt 0) # ys"
    using subscript_insert [of k ?m lib] by (simp add: Table_subscript_def)
  from a ints show len: "length (table_data (Table_subscript lib t k)) = Suc ?n"
    by (simp add: Table_subscript_def length_subscript)
  from ints show mem: "k \<in> fst ` set (table_data (Table_subscript lib t k))"
    by (simp add: Table_subscript_def subscript_key)
  have next_index: "subscript lib k ?m = ?m @ [(k, VInt 0)]" if k: "k = index_key ?n"
  proof -
    have "\<forall>p \<in> set ?m. value_less lib (fst p) k \<and> \<not> value_less lib k (fst p)"
    proof
      fix p assume "p \<in> set ?m"
      then have "fst p \<in> set (map fst ?m)" by simp
      with keys obtain j where "j < ?n" "fst p = index_key j" by auto
      with a k show "value_less lib (fst p) k \<and> \<not> value_less lib k (fst p)"
        by (simp add: index_key_less)
    qed
    then show ?thesis by (rule subscript_append)
  qed
  show "Table_subscript lib t k = Table (table_data t @ [(k, VInt 0)]) True"
    if "k = index_key ?n"
    using next_index [OF that] a by (simp add: Table_subscript_def)
  show "array_invariant (Table_subscript lib t k) \<longleftrightarrow> k = index_key ?n"
  proof
    assume "array_invariant (Table_subscript lib t k)"
    with arr have "map fst (table_data (Table_subscript lib t k)) = map index_key [0..<Suc ?n]"
      using len by (simp add: array_invariant_def del: upt_Suc)
    with mem have "k \<in> set (map index_key [0..<Suc ?n])" by (metis list.set_map)
    then have "k \<in> index_key ` {0..<Suc ?n}" by (simp del: upt_Suc)
    then obtain j where j: "j < Suc ?n" "k = index_key j" by auto
    have "j \<noteq> ?n \<Longrightarrow> k \<in> set (map fst ?m)" using j keys by auto
    with a j show "k = index_key ?n" by auto
  next
    assume k: "k = index_key ?n"
    with next_index [OF k] a keys show "array_invariant (Table_subscript lib t k)"
      by (simp add: array_invariant_def Table_subscript_def)
  qed
qed

text \<open>
  The invariant is not preserved by every operation of the table: after \<^verbatim>\<open>t[Value(5)]\<close>
  on the array table of the sequence \<open>1, 2\<close> the keys are \<open>0, 1, 5\<close>.
\<close>

theorem subscript_breaks_array_invariant:
  "array_invariant (Table_of_vector tenths_lib [VInt 1, VInt 2])
   \<and> \<not> array_invariant
         (Table_subscript tenths_lib (Table_of_vector tenths_lib [VInt 1, VInt 2]) (VInt 5))"
  by (simp add: array_invariant_def Table_of_vector_def Table_subscript_def index_key_def)

theorem array_table_keys_witness:
  "length [VString ''a'', VString ''b'' :: int Value] \<le> 2 ^ 31
   \<and> get_data (Table_of_vector tenths_lib [VString ''a'', VString ''b''])
       = Inr [VString ''a'', VString ''b'']
   \<and> array_invariant (Table_of_vector tenths_lib [VInt 1, VInt 2])
   \<and> is_array (Table_of_vector tenths_lib [VInt 1, VInt 2])
   \<and> VInt 1 \<in> fst ` set (table_data (Table_of_vector tenths_lib [VInt 1, VInt 2]))
   \<and> Table_subscript tenths_lib (Table_of_vector tenths_lib [VInt 1, VInt 2]) (VInt 1)
        = Table_of_vector tenths_lib [VInt 1, VInt 2]
   \<and> VInt 5 \<notin> fst ` set (table_data (Table_of_vector tenths_lib [VInt 1, VInt 2]))
   \<and> is_array (Table_subscript tenths_lib (Table_of_vector tenths_lib [VInt 1, VInt 2]) (VInt 5))
   \<and> length (table_data
          (Table_subscript tenths_lib (Table_of_vector tenths_lib [VInt 1, VInt 2]) (VInt 5))) = 3
   \<and> \<not> array_invariant
          (Table_subscript tenths_lib (Table_of_vector tenths_lib [VInt 1, VInt 2]) (VInt 5))
   \<and> VInt 2 \<notin> fst ` set (table_data (Table_of_vector tenths_lib [VInt 1, VInt 2]))
   \<and> VInt 2 = (index_key (length (table_data (Table_of_vector tenths_lib [VInt 1, VInt 2])))
                :: int Value)
   \<and> Table_subscript tenths_lib (Table_of_vector tenths_lib [VInt 1, VInt 2]) (VInt 2)
        = Table [(VInt 0, VInt 1), (VInt 1, VInt 2), (VInt 2, VInt 0)] True
   \<and> array_invariant
          (Table_subscript tenths_lib (Table_of_vector tenths_lib [VInt 1, VInt 2]) (VInt 2))"
proof -
  let ?t = "Table_of_vector tenths_lib [VInt 1, VInt 2 :: int Value]"
  let ?d = "[VString ''a'', VString ''b'' :: int Value]"
  have t: "?t = Table [(VInt 0, VInt 1), (VInt 1, VInt 2)] True"
    by (simp add: Table_of_vector_def)
  have d: "length ?d \<le> 2 ^ 31" by simp
  have inv: "array_invariant ?t" "is_array ?t"
    by (simp_all add: t array_invariant_def index_key_def)
  have len: "length (table_data ?t) \<le> 2 ^ 31" "length (table_data ?t) < 2 ^ 31"
    "Suc (length (table_data ?t)) = 3"
    by (simp_all add: t)
  have keys: "VInt 1 \<in> fst ` set (table_data ?t)" "VInt 5 \<notin> fst ` set (table_data ?t)"
    "VInt 2 \<notin> fst ` set (table_data ?t)"
    by (simp_all add: t)
  have nxt: "VInt 2 = (index_key (length (table_data ?t)) :: int Value)"
    "VInt 5 \<noteq> (index_key (length (table_data ?t)) :: int Value)"
    by (simp_all add: t index_key_def)
  have app: "Table (table_data ?t @ [(VInt 2, VInt 0)]) True
      = Table [(VInt 0, VInt 1), (VInt 1, VInt 2), (VInt 2, VInt 0)] True"
    by (simp add: t)
  have built: "get_data (Table_of_vector tenths_lib ?d) = Inr ?d"
    using array_table_keys [of ?d tenths_lib ?t "VInt 1"] d by blast
  have present: "Table_subscript tenths_lib ?t (VInt 1) = ?t"
    using array_table_keys [of ?d tenths_lib ?t "VInt 1"] inv len(1) keys(1) by blast
  have absent: "is_array (Table_subscript tenths_lib ?t (VInt 5))"
    "length (table_data (Table_subscript tenths_lib ?t (VInt 5))) = Suc (length (table_data ?t))"
    "\<not> array_invariant (Table_subscript tenths_lib ?t (VInt 5))"
    using array_table_keys [of ?d tenths_lib ?t "VInt 5"] inv len(2) keys(2) nxt(2) by blast+
  have following: "Table_subscript tenths_lib ?t (VInt 2) = Table (table_data ?t @ [(VInt 2, VInt 0)]) True"
    "array_invariant (Table_subscript tenths_lib ?t (VInt 2))"
    using array_table_keys [of ?d tenths_lib ?t "VInt 2"] inv len(2) keys(3) nxt(1) by blast+
  from d built inv keys present absent following nxt(1) show ?thesis
    unfolding len(3) app by blast
qed

section \<open>Maps are serialized in the order of their keys\<close>

lemma value_less_index: "value_less lib a b \<Longrightarrow> index a \<le> index b"
  by (simp add: value_less_def split: if_splits)

lemma string_less_trans: "string_less a b \<Longrightarrow> string_less b c \<Longrightarrow> string_less a c"
  unfolding string_less_lexord
  by (rule lexord_trans) (auto simp: trans_def)

lemma same_index_cases:
  assumes "index a = index b"
  obtains (Int) i j where "a = VInt i" "b = VInt j"
    | (Float) f g where "a = VFloat f" "b = VFloat g"
    | (Bool) c d where "a = VBool c" "b = VBool d"
    | (String) s r where "a = VString s" "b = VString r"
    | (Table) p t q u where "a = VTable p t" "b = VTable q u"
  using assms by (cases a; cases b) simp_all

lemma value_less_same [simp]:
  "value_less lib (VFloat f) (VFloat g) = float_less lib f g"
  "value_less lib (VBool c) (VBool d) = (\<not> c \<and> d)"
  "value_less lib (VString s) (VString r) = string_less s r"
  "value_less lib (VTable p t) (VTable q u) = (p < q)"
  by (simp_all add: value_less_def is_int_def is_float_def is_bool_def is_string_def is_table_def)

lemma value_less_trans:
  assumes "float_less_trans lib" "value_less lib a b" "value_less lib b c"
  shows "value_less lib a c"
proof (cases "index a = index b \<and> index b = index c")
  case False
  with assms(2,3) have "index a < index c"
    using value_less_index [of lib a b] value_less_index [of lib b c]
    by (auto simp: value_less_def split: if_splits)
  then show ?thesis by (simp add: value_less_def)
next
  case True
  then have ab: "index a = index b" and bc: "index b = index c" by simp_all
  from ab show ?thesis
  proof (cases rule: same_index_cases)
    case (Int i j)
    with bc obtain k where "c = VInt k" by (cases c) simp_all
    with Int assms(2,3) show ?thesis by simp
  next
    case (Float f g)
    with bc obtain h where "c = VFloat h" by (cases c) simp_all
    with Float assms show ?thesis by (auto simp: float_less_trans_def)
  next
    case (Bool x y)
    with bc obtain z where "c = VBool z" by (cases c) simp_all
    with Bool assms(2,3) show ?thesis by simp
  next
    case (String s r)
    with bc obtain q where "c = VString q" by (cases c) simp_all
    with String assms(2,3) show ?thesis by (auto intro: string_less_trans)
  next
    case (Table p t q u)
    with bc obtain r w where "c = VTable r w" by (cases c) simp_all
    with Table assms(2,3) show ?thesis by simp
  qed
qed

lemma keys_map_set: "(a, b) \<in> set (map_set lib k v m) \<Longrightarrow> a = k \<or> a \<in> fst ` set m"
  by (induction lib k v m rule: map_set.induct) (force split: if_splits)+

lemma sorted_map_set:
  assumes "float_less_trans lib"
  shows "sorted_wrt (value_less lib) (map fst m)
           \<Longrightarrow> sorted_wrt (value_less lib) (map fst (map_set lib k v m))"
proof (induction m)
  case Nil
  then show ?case by simp
next
  case (Cons p ps)
  obtain k' v' where p: "p = (k', v')" by (cases p)
  from Cons.prems p have later: "\<forall>x \<in> fst ` set ps. value_less lib k' x"
    and tail: "sorted_wrt (value_less lib) (map fst ps)" by auto
  consider (before) "value_less lib k k'" | (after) "\<not> value_less lib k k'" "value_less lib k' k"
    | (same) "\<not> value_less lib k k'" "\<not> value_less lib k' k" by blast
  then show ?case
  proof cases
    case before
    with later have "\<forall>x \<in> fst ` set ps. value_less lib k x"
      using value_less_trans [OF assms] by blast
    with before Cons.prems p show ?thesis by auto
  next
    case after
    have "\<forall>x \<in> fst ` set (map_set lib k v ps). value_less lib k' x"
    proof
      fix x assume "x \<in> fst ` set (map_set lib k v ps)"
      then obtain b where "(x, b) \<in> set (map_set lib k v ps)" by auto
      then have "x = k \<or> x \<in> fst ` set ps" by (rule keys_map_set)
      with later after(2) show "value_less lib k' x" by blast
    qed
    with after p tail Cons.IH show ?thesis by auto
  next
    case same
    with Cons.prems p show ?thesis by simp
  qed
qed

lemma sorted_map_of_inserts:
  assumes "float_less_trans lib"
  shows "sorted_wrt (value_less lib) (map fst (map_of_inserts lib kvs))"
proof -
  have "sorted_wrt (value_less lib) (map fst m)
      \<Longrightarrow> sorted_wrt (value_less lib) (map fst (foldl (\<lambda>m (k, v). map_set lib k v m) m kvs))" for m
    by (induction kvs arbitrary: m) (auto simp: sorted_map_set [OF assms])
  from this [of "[]"] show ?thesis by (simp add: map_of_inserts_def)
qed

lemma map_out_join:
  "map_out lib first ps
     = (if first \<or> ps = [] then [] else '','') @ join '','' (map (entry_text lib) ps)"
proof (induction ps arbitrary: first)
  case Nil
  then show ?case by simp
next
  case (Cons p ps)
  obtain k v where p: "p = (k, v)" by (cases p)
  show ?case using Cons [of False] p
    by (cases ps) (simp_all add: entry_text_def)
qed

lemma array_out_join:
  "array_out lib first ps
     = (if first \<or> ps = [] then [] else '','') @ join '','' (map (\<lambda>p. serialize lib (snd p)) ps)"
proof (induction ps arbitrary: first)
  case Nil
  then show ?case by simp
next
  case (Cons p ps)
  obtain k v where p: "p = (k, v)" by (cases p)
  show ?case using Cons [of False] p
    by (cases ps) simp_all
qed

text \<open>
  C5. A map built by insertions holds its pairs in the order of \<^verbatim>\<open>operator<\<close> on the
  keys, whatever the order of the insertions (for this the comparison of floats has to
  be transitive, as it is for every IEEE comparison), and \<^verbatim>\<open>Table::serialize\<close> writes
  the pairs of a map-mode table in the order the map holds them, as \<open>key=value\<close>
  separated by commas, with no comma after the last pair. The map that receives the
  key \<^verbatim>\<open>"y"\<close> before the key \<^verbatim>\<open>"x"\<close> is written with \<^verbatim>\<open>"x"\<close> first.
\<close>

theorem map_serialized_in_key_order:
  "(float_less_trans lib \<longrightarrow> sorted_wrt (value_less lib) (map fst (map_of_inserts lib kvs)))
   \<and> Table_serialize lib (Table_of_map m) = ''{'' @ join '','' (map (entry_text lib) m) @ ''}''
   \<and> Table_serialize lib
        (Table_of_map (map_of_inserts lib [(VString ''y'', VInt 1), (VString ''x'', VInt 2)]))
       = ''{\"x\"=2,\"y\"=1}''"
proof (intro conjI impI)
  show "Table_serialize lib
        (Table_of_map (map_of_inserts lib [(VString ''y'', VInt 1), (VString ''x'', VInt 2)]))
       = ''{\"x\"=2,\"y\"=1}''"
    by (simp add: Table_of_map_def map_of_inserts_def value_less_def is_int_def is_float_def
        is_bool_def is_string_def show_int_def show_nat.simps digit_char_def digit_chars_def)
qed (simp_all add: sorted_map_of_inserts Table_of_map_def map_out_join)

theorem map_serialized_in_key_order_witness:
  "float_less_trans tenths_lib
   \<and> sorted_wrt (value_less tenths_lib)
        (map fst (map_of_inserts tenths_lib
           [(VString ''y'', VInt 1), (VInt 3, VBool True), (VString ''x'', VFloat 5)]))
   \<and> map_of_inserts tenths_lib
           [(VString ''y'', VInt 1), (VInt 3, VBool True), (VString ''x'', VFloat 5)]
       = [(VInt 3, VBool True), (VString ''x'', VFloat 5), (VString ''y'', VInt 1)]"
proof -
  have t: "float_less_trans tenths_lib"
    by (simp add: float_less_trans_def tenths_lib_def)
  have e: "map_of_inserts tenths_lib
           [(VString ''y'', VInt 1), (VInt 3, VBool True), (VString ''x'', VFloat 5)]
       = [(VInt 3, VBool True), (VString ''x'', VFloat 5), (VString ''y'', VInt 1)]"
    by code_simp
  from t e map_serialized_in_key_order [of tenths_lib
      "[(VString ''y'', VInt 1), (VInt 3, VBool True), (VString ''x'', VFloat 5)]"]
  show ?thesis by simp
qed

section \<open>The dispatch of values\<close>

lemma find_char_None: "find_char s c = None \<longleftrightarrow> c \<notin> set s"
  by (induction s) auto

text \<open>
  C3. On every fragment that is not empty, \<^verbatim>\<open>Value::deserialize\<close> returns what the
  first applicable attempt of the chain returns, in this order: the number (float
  parse when the fragment contains a point, integer parse otherwise; a failed parse falls
  through), the literals \<^verbatim>\<open>true\<close> and \<^verbatim>\<open>false\<close>, the quoted string, the table when the
  fragment starts with \<^verbatim>\<open>[\<close> or \<^verbatim>\<open>{\<close>; otherwise the whole fragment as a string, not an
  error.
\<close>

theorem deserialize_dispatch:
  "s \<noteq> [] \<Longrightarrow> deserialize lib s n = dispatch lib s n"
proof -
  assume ne: "s \<noteq> []"
  then obtain q r where s: "s = q # r" by (cases s) auto
  define num where "num = (if find_char s CHR ''.'' \<noteq> None then map_option VFloat (stof lib s)
                 else map_option VInt (stoi s))"
  have number: "try_number lib s n = map_option (\<lambda>v. Inr (v, n)) num"
    by (simp add: try_number_def num_def find_char_None option.map_comp comp_def)
  have quoted: "try_quoted lib s n
      = (if 2 \<le> length s \<and> hd s = CHR 0x22 \<and> last s = CHR 0x22
         then Some (Inr (VString (substr s 1 (length s - 2)), n)) else None)"
    unfolding s by (cases r) (auto simp: try_quoted_def substr_def butlast_conv_take)
  have table: "try_table lib s n
      = (if hd s = CHR ''['' \<or> hd s = CHR ''{''
         then Some (case Table_deserialize lib s n of
                      Inl e \<Rightarrow> Inl e
                    | Inr (t, n') \<Rightarrow> Inr (VTable n' t, Suc n'))
         else None)"
    by (simp add: try_table_def s)
  show ?thesis
    unfolding deserialize.simps [of lib s n] dispatch_def num_def [symmetric]
    by (cases num) (simp_all add: ne number quoted table try_literal_def)
qed

theorem deserialize_dispatch_witness:
  "''12abc'' \<noteq> [] \<and> dispatch tenths_lib ''12abc'' 0 = Inr (VInt 12, 0)
   \<and> ''-42.5'' \<noteq> [] \<and> dispatch tenths_lib ''-42.5'' 0 = Inr (VFloat (- 425), 0)"
proof -
  have a: "deserialize tenths_lib ''12abc'' 0 = Inr (VInt 12, 0)" by code_simp
  have b: "deserialize tenths_lib ''-42.5'' 0 = Inr (VFloat (- 425), 0)" by code_simp
  from a b deserialize_dispatch [of "''12abc''" tenths_lib 0]
    deserialize_dispatch [of "''-42.5''" tenths_lib 0]
  show ?thesis by simp
qed

section \<open>Empty segments and trailing commas\<close>

lemma array_loop_trailing_comma:
  "depth_after d s = 0 \<Longrightarrow> array_loop lib (s @ '','') item d vec n = array_loop lib s item d vec n"
proof (induction s arbitrary: item d vec n)
  case Nil
  then show ?case
    by (cases "array_item lib item vec n") (auto simp: array_item.simps [of lib "[]"])
next
  case (Cons c s)
  then show ?case by (auto split: sum.splits)
qed

lemma object_loop_trailing_comma:
  "depth_after d s = 0 \<Longrightarrow> object_loop lib (s @ '','') item d m n = object_loop lib s item d m n"
proof (induction s arbitrary: item d m n)
  case Nil
  then show ?case
    by (cases "object_item lib item m n") (auto simp: object_item.simps [of lib "[]"])
next
  case (Cons c s)
  then show ?case by (auto split: sum.splits)
qed

lemma array_trailing_comma:
  assumes "depth_after 0 c = 0"
  shows "Table_deserialize lib (''['' @ c @ '',]'') n = Table_deserialize lib (''['' @ c @ '']'') n"
proof -
  have "array_loop lib (c @ '','') [] 0 [] n = array_loop lib c [] 0 [] n"
    using assms by (rule array_loop_trailing_comma)
  moreover have "c = [] \<Longrightarrow> array_loop lib '','' [] 0 [] n = Inr ([], n)"
    by (simp add: array_item.simps)
  ultimately show ?thesis
    by (cases "c = []") (simp_all add: Table_deserialize.simps substr_def)
qed

lemma object_trailing_comma:
  assumes "depth_after 0 c = 0"
  shows "Table_deserialize lib (''{'' @ c @ '',}'') n = Table_deserialize lib (''{'' @ c @ ''}'') n"
proof -
  have "object_loop lib (c @ '','') [] 0 [] n = object_loop lib c [] 0 [] n"
    using assms by (rule object_loop_trailing_comma)
  moreover have "c = [] \<Longrightarrow> object_loop lib '','' [] 0 [] n = Inr ([], n)"
    by (simp add: object_item.simps)
  ultimately show ?thesis
    by (cases "c = []")
      (simp_all add: Table_deserialize.simps substr_def Table_default_def Table_of_map_def)
qed

text \<open>
  C6. A segment that is empty once trimmed is skipped, in arrays and in objects, without
  an error. So a comma before the closing bracket changes nothing, whenever the scan is
  back at depth 0 there. \<^verbatim>\<open>[1,2,3,]\<close> is the array of the three elements 1, 2, 3, and
  \<^verbatim>\<open>[{"a"=1,},{"b"=2,},]\<close> is an array of two objects with one key each.
\<close>

theorem trailing_commas_skipped:
  "(trim item = [] \<longrightarrow>
      array_item lib item vec n = Inr (vec, n) \<and> object_item lib item m n = Inr (m, n))
   \<and> (depth_after 0 c = 0 \<longrightarrow>
        Table_deserialize lib (''['' @ c @ '',]'') n = Table_deserialize lib (''['' @ c @ '']'') n
      \<and> Table_deserialize lib (''{'' @ c @ '',}'') n = Table_deserialize lib (''{'' @ c @ ''}'') n)
   \<and> Table_deserialize lib ''[1,2,3,]'' n = Inr (Table_of_vector lib [VInt 1, VInt 2, VInt 3], n)
   \<and> get_data (Table_of_vector lib [VInt 1, VInt 2, VInt 3]) = Inr [VInt 1, VInt 2, VInt 3]
   \<and> Table_deserialize lib ''[{\"a\"=1,},{\"b\"=2,},]'' n
      = Inr (Table_of_vector lib
               [VTable n (Table_of_map [(VString ''a'', VInt 1)]),
                VTable (Suc n) (Table_of_map [(VString ''b'', VInt 2)])],
             Suc (Suc n))
   \<and> get_data (Table_of_vector lib
               [VTable n (Table_of_map [(VString ''a'', VInt 1)]),
                VTable (Suc n) (Table_of_map [(VString ''b'', VInt 2)])])
      = Inr [VTable n (Table_of_map [(VString ''a'', VInt 1)]),
             VTable (Suc n) (Table_of_map [(VString ''b'', VInt 2)])]"
proof (intro conjI impI)
  assume "trim item = []"
  then show "array_item lib item vec n = Inr (vec, n)" "object_item lib item m n = Inr (m, n)"
    by (simp_all add: array_item.simps object_item.simps)
next
  assume "depth_after 0 c = 0"
  then show "Table_deserialize lib (''['' @ c @ '',]'') n = Table_deserialize lib (''['' @ c @ '']'') n"
    "Table_deserialize lib (''{'' @ c @ '',}'') n = Table_deserialize lib (''{'' @ c @ ''}'') n"
    by (rule array_trailing_comma, rule object_trailing_comma)
qed (simp_all add: parser_simps eval_defs get_data_def)

theorem trailing_commas_skipped_witness:
  "trim '' '' = [] \<and> array_item tenths_lib '' '' [VInt 1] 0 = Inr ([VInt 1], 0)
   \<and> depth_after 0 ''[1],2'' = 0
   \<and> Table_deserialize tenths_lib ''[[1],2,]'' 0 = Table_deserialize tenths_lib ''[[1],2]'' 0"
proof -
  have a: "trim '' '' = []" by code_simp
  have b: "depth_after 0 ''[1],2'' = 0" by simp
  from a b trailing_commas_skipped [of "'' ''" tenths_lib "[VInt 1]" 0 "[]" "''[1],2''"]
  show ?thesis by simp
qed

section \<open>Entries with an empty side\<close>

text \<open>
  C10. An entry of an object that contains \<^verbatim>\<open>=\<close> and whose key side or value side is
  empty once trimmed is dropped: no error is raised and the map stays as it was.
  \<^verbatim>\<open>{"a"=}\<close> and \<^verbatim>\<open>{=1}\<close> are parsed to the empty map, \<^verbatim>\<open>{"a"=,"b"=2}\<close> to the map with
  the key \<^verbatim>\<open>"b"\<close> alone.
\<close>

theorem empty_side_dropped:
  "(find_char (trim item) CHR ''='' = Some i
      \<and> (trim (substr (trim item) 0 i) = [] \<or> trim (drop (i + 1) (trim item)) = [])
      \<longrightarrow> object_item lib item m n = Inr (m, n))
   \<and> Table_deserialize lib ''{\"a\"=}'' n = Inr (Table_of_map [], n)
   \<and> Table_deserialize lib ''{=1}'' n = Inr (Table_of_map [], n)
   \<and> Table_deserialize lib ''{\"a\"=,\"b\"=2}'' n = Inr (Table_of_map [(VString ''b'', VInt 2)], n)"
proof (intro conjI impI)
  assume "find_char (trim item) CHR ''='' = Some i
      \<and> (trim (substr (trim item) 0 i) = [] \<or> trim (drop (i + 1) (trim item)) = [])"
  then show "object_item lib item m n = Inr (m, n)"
    by (auto simp: object_item.simps)
qed (simp_all add: parser_simps eval_defs)

theorem empty_side_dropped_witness:
  "find_char (trim '' x = '') CHR ''='' = Some 2
   \<and> trim (drop (2 + 1) (trim '' x = '')) = []
   \<and> object_item tenths_lib '' x = '' [(VInt 1, VInt 2)] 0 = Inr ([(VInt 1, VInt 2)], 0)"
proof -
  have a: "find_char (trim '' x = '') CHR ''='' = Some 2" by code_simp
  have b: "trim (drop (2 + 1) (trim '' x = '')) = []" by code_simp
  from a b empty_side_dropped [of "'' x = ''" 2 tenths_lib "[(VInt 1, VInt 2)]" 0]
  show ?thesis by simp
qed

section \<open>The scan in terms of segments\<close>

lemma array_loop_segments:
  "array_loop lib rest item d vec n = array_items lib (segments rest item d) vec n"
proof (induction rest arbitrary: item d vec n)
  case Nil
  then show ?case by (simp split: sum.splits)
next
  case (Cons c rest)
  then show ?case by (simp split: sum.splits)
qed

lemma object_loop_segments:
  "object_loop lib rest item d m n = object_items lib (segments rest item d) m n"
proof (induction rest arbitrary: item d m n)
  case Nil
  then show ?case by (simp split: sum.splits)
next
  case (Cons c rest)
  then show ?case by (simp split: sum.splits)
qed

lemma swap_kind_open:
  "(swap_kind c = CHR ''['' \<or> swap_kind c = CHR ''{'') \<longleftrightarrow> (c = CHR ''['' \<or> c = CHR ''{'')"
  by (simp add: swap_kind_def)

lemma swap_kind_close:
  "(swap_kind c = CHR '']'' \<or> swap_kind c = CHR ''}'') \<longleftrightarrow> (c = CHR '']'' \<or> c = CHR ''}'')"
  by (simp add: swap_kind_def)

lemma swap_kind_comma: "swap_kind c = CHR '','' \<longleftrightarrow> c = CHR '',''"
  by (simp add: swap_kind_def)

lemma segments_swap_kind:
  "segments (map swap_kind rest) (map swap_kind item) d = map (map swap_kind) (segments rest item d)"
proof (induction rest arbitrary: item d)
  case Nil
  then show ?case by simp
next
  case (Cons c rest)
  have push: "segments (map swap_kind rest) (map swap_kind item @ [swap_kind c]) e
      = map (map swap_kind) (segments rest (item @ [c]) e)" for e
    using Cons [of "item @ [c]" e] by simp
  have fresh: "segments (map swap_kind rest) [] e = map (map swap_kind) (segments rest [] e)" for e
    using Cons [of "[]" e] by simp
  have "segments (swap_kind c # map swap_kind rest) (map swap_kind item) d
      = map (map swap_kind) (segments (c # rest) item d)"
    unfolding segments.simps swap_kind_open swap_kind_close swap_kind_comma push fresh
    by simp
  then show ?case by simp
qed

lemma array_items_empty [simp]: "array_items lib [[]] vec n = Inr (vec, n)"
  by (simp add: array_item.simps)

lemma object_items_empty [simp]: "object_items lib [[]] m n = Inr (m, n)"
  by (simp add: object_item.simps)

lemma Table_deserialize_segments:
  "Table_deserialize lib s n =
     (if s = [] then Inl EmptyData
      else if hd s = CHR ''['' then
        (if length s < 2 \<or> last s \<noteq> CHR '']'' then Inl MalformedArray
         else case array_items lib (segments (content s) [] 0) [] n of
                Inl e \<Rightarrow> Inl e
              | Inr (vec, n') \<Rightarrow> Inr (Table_of_vector lib vec, n'))
      else if hd s = CHR ''{'' then
        (if length s < 2 \<or> last s \<noteq> CHR ''}'' then Inl MalformedTable
         else case object_items lib (segments (content s) [] 0) [] n of
                Inl e \<Rightarrow> Inl e
              | Inr (m, n') \<Rightarrow> Inr (Table_of_map m, n'))
      else Inl UnknownType)"
proof -
  have "length s = 2 \<Longrightarrow> content s = []" by (simp add: content_def substr_def)
  then show ?thesis
    unfolding Table_deserialize.simps [of lib s n]
    by (simp add: array_loop_segments object_loop_segments content_def
        array_item.simps [of lib "[]"] object_item.simps [of lib "[]"]
        Table_default_def Table_of_map_def)
qed

text \<open>
  C2, amended. The scan keeps one depth counter for both kinds of brackets: exchanging
  the kinds in the interior exchanges them in the segments and moves no boundary. The
  counter only decides which commas separate segments; its final value is not looked at.
  What \<^verbatim>\<open>Table::deserialize\<close> checks of the structure is that the first character is a
  bracket and the last character the closing bracket of the same kind; everything else
  is left to the parsing of the segments. So \<^verbatim>\<open>[x{1,2],3]\<close> is an array of two
  elements, \<^verbatim>\<open>[1]]\<close> is the array of 1 although the scan ends at depth -1, and
  \<^verbatim>\<open>[1,2}\<close> is rejected as a malformed array.
\<close>

theorem depth_counter_lenient:
  "segments (map swap_kind c) [] 0 = map (map swap_kind) (segments c [] 0)
   \<and> Table_deserialize lib s n =
     (if s = [] then Inl EmptyData
      else if hd s = CHR ''['' then
        (if length s < 2 \<or> last s \<noteq> CHR '']'' then Inl MalformedArray
         else case array_items lib (segments (content s) [] 0) [] n of
                Inl e \<Rightarrow> Inl e
              | Inr (vec, n') \<Rightarrow> Inr (Table_of_vector lib vec, n'))
      else if hd s = CHR ''{'' then
        (if length s < 2 \<or> last s \<noteq> CHR ''}'' then Inl MalformedTable
         else case object_items lib (segments (content s) [] 0) [] n of
                Inl e \<Rightarrow> Inl e
              | Inr (m, n') \<Rightarrow> Inr (Table_of_map m, n'))
      else Inl UnknownType)
   \<and> Table_deserialize lib ''[x{1,2],3]'' n
       = Inr (Table_of_vector lib [VString ''x{1,2]'', VInt 3], n)
   \<and> Table_deserialize lib ''[1]]'' n = Inr (Table_of_vector lib [VInt 1], n)
   \<and> depth_after 0 (content ''[1]]'') = - 1
   \<and> Table_deserialize lib ''[1,2}'' n = Inl MalformedArray"
proof (intro conjI)
  show "segments (map swap_kind c) [] 0 = map (map swap_kind) (segments c [] 0)"
    using segments_swap_kind [of c "[]" 0] by simp
  show "Table_deserialize lib s n =
     (if s = [] then Inl EmptyData
      else if hd s = CHR ''['' then
        (if length s < 2 \<or> last s \<noteq> CHR '']'' then Inl MalformedArray
         else case array_items lib (segments (content s) [] 0) [] n of
                Inl e \<Rightarrow> Inl e
              | Inr (vec, n') \<Rightarrow> Inr (Table_of_vector lib vec, n'))
      else if hd s = CHR ''{'' then
        (if length s < 2 \<or> last s \<noteq> CHR ''}'' then Inl MalformedTable
         else case object_items lib (segments (content s) [] 0) [] n of
                Inl e \<Rightarrow> Inl e
              | Inr (m, n') \<Rightarrow> Inr (Table_of_map m, n'))
      else Inl UnknownType)"
    by (rule Table_deserialize_segments)
qed (simp_all add: parser_simps eval_defs content_def)

text \<open>
  The final depth is not checked, and \<^verbatim>\<open>[1,2}\<close> is rejected.
\<close>

theorem final_depth_unchecked:
  "Table_deserialize tenths_lib ''[1]]'' 0 = Inr (Table [(VInt 0, VInt 1)] True, 0)
   \<and> depth_after 0 (content ''[1]]'') = - 1
   \<and> Table_deserialize tenths_lib ''[1,2}'' 0 = Inl MalformedArray"
  by (simp add: parser_simps eval_defs content_def)

theorem depth_counter_lenient_witness:
  "''[ab]'' \<noteq> [] \<and> hd ''[ab]'' = CHR ''['' \<and> \<not> (length ''[ab]'' < 2 \<or> last ''[ab]'' \<noteq> CHR '']'')
   \<and> Table_deserialize tenths_lib ''[ab]'' 0
      = (case array_items tenths_lib (segments (content ''[ab]'') [] 0) [] 0 of
                Inl e \<Rightarrow> Inl e
              | Inr (vec, n') \<Rightarrow> Inr (Table_of_vector tenths_lib vec, n'))"
  using depth_counter_lenient [of "[]" tenths_lib "''[ab]''" 0]
  by simp

section \<open>When parsing fails\<close>

lemma no_number_at_bracket:
  assumes "s \<noteq> []" "hd s = CHR ''['' \<or> hd s = CHR ''{'' \<or> hd s = CHR 0x22"
  shows "stoi s = None" "stof lib s = None"
proof -
  from assms obtain c r where s: "s = c # r" and c: "c = CHR ''['' \<or> c = CHR ''{'' \<or> c = CHR 0x22"
    by (cases s) auto
  from c have ns: "\<not> isspace c" by (auto simp: isspace_def)
  from c have nd: "\<not> isdigit c" by (auto simp: isdigit_def digit_chars_def)
  from c have sg: "c \<noteq> CHR ''-''" "c \<noteq> CHR ''+''" "c \<noteq> CHR ''.''" by auto
  from c have lw: "lower c \<noteq> CHR ''i''" "lower c \<noteq> CHR ''n''" by (auto simp: lower_def)
  show "stoi s = None"
    unfolding s by (simp add: stoi_def strip_sign_def ns nd sg)
  show "stof lib s = None"
    unfolding s by (simp add: stof_def strtof_subject_def strip_sign_def ns nd sg lw)
qed

lemma deserialize_fails_iff:
  "isl (deserialize lib s n) \<longleftrightarrow>
     s = [] \<or> ((hd s = CHR ''['' \<or> hd s = CHR ''{'') \<and> isl (Table_deserialize lib s n))"
proof (cases "s = []")
  case True
  then show ?thesis by (simp add: deserialize.simps)
next
  case False
  show ?thesis
  proof (cases "hd s = CHR ''['' \<or> hd s = CHR ''{''")
    case True
    with False have "stoi s = None" "stof lib s = None"
      by (auto intro: no_number_at_bracket)
    with True False show ?thesis
      by (auto simp: deserialize.simps [of lib s n] split: sum.splits)
  next
    case no: False
    with False show ?thesis
      by (auto simp: deserialize.simps [of lib s n] split: option.splits)
  qed
qed

lemma array_item_fails_iff:
  "isl (array_item lib item vec n) \<longleftrightarrow> trim item \<noteq> [] \<and> isl (deserialize lib (trim item) n)"
proof -
  have "item = [] \<Longrightarrow> trim item = []" by (simp add: trim_dropWhile)
  then show ?thesis
    by (auto simp: array_item.simps [of lib item] split: sum.splits)
qed

lemma segments_length:
  "item \<in> set (segments rest cur d) \<Longrightarrow> length item \<le> length rest + length cur"
proof (induction rest arbitrary: cur d)
  case Nil
  then show ?case by simp
next
  case (Cons c rest)
  then show ?case by (fastforce split: if_splits)
qed

lemma content_length: "2 \<le> length s \<Longrightarrow> length (content s) < length s"
  by (simp add: content_def substr_def)

lemma array_items_indep:
  assumes "\<And>t n n'. length t < L \<Longrightarrow> isl (deserialize lib t n) = isl (deserialize lib t n')"
    and "\<forall>item \<in> set items. length item < L"
  shows "isl (array_items lib items vec n) = isl (array_items lib items vec' n')"
  using assms(2)
proof (induction items arbitrary: vec vec' n n')
  case Nil
  then show ?case by simp
next
  case (Cons item items)
  have "length (trim item) < L"
    using Cons.prems length_trim [of item] by simp
  then have same: "isl (array_item lib item vec n) = isl (array_item lib item vec' n')"
    unfolding array_item_fails_iff using assms(1) by blast
  show ?case
  proof (cases "array_item lib item vec n")
    case (Inl e)
    with same show ?thesis by (cases "array_item lib item vec' n'") auto
  next
    case (Inr r)
    with same obtain r' where r': "array_item lib item vec' n' = Inr r'"
      by (cases "array_item lib item vec' n'") auto
    obtain v k v' k' where "r = (v, k)" "r' = (v', k')" by (cases r; cases r')
    with Inr r' Cons.IH [of v k v' k'] Cons.prems show ?thesis by simp
  qed
qed

lemma object_item_fails_iff:
  assumes "\<And>t n n'. length t \<le> length item
      \<Longrightarrow> isl (deserialize lib t n) = isl (deserialize lib t n')"
  shows "isl (object_item lib item m n) \<longleftrightarrow> trim item \<noteq> [] \<and> entry_fails lib (trim item) n"
proof (cases "trim item = []")
  case True
  then show ?thesis by (simp add: object_item.simps [of lib item])
next
  case False
  then have ne: "item \<noteq> []" by (auto simp: trim_dropWhile)
  show ?thesis
  proof (cases "find_char (trim item) CHR ''=''")
    case None
    with False ne show ?thesis
      by (simp add: object_item.simps [of lib item] entry_fails_def)
  next
    case (Some i)
    let ?k = "trim (substr (trim item) 0 i)" and ?v = "trim (drop (i + 1) (trim item))"
    have "length ?k \<le> length item"
      using length_trim_take [of i item] by (simp add: substr_def)
    then have key: "isl (deserialize lib ?k n') = isl (deserialize lib ?k n)" for n'
      using assms by blast
    show ?thesis
    proof (cases "deserialize lib ?v n")
      case (Inl e)
      with False ne Some show ?thesis
        by (simp add: object_item.simps [of lib item] entry_fails_def)
    next
      case (Inr r)
      obtain v n1 where r: "r = (v, n1)" by (cases r)
      show ?thesis
      proof (cases "deserialize lib ?k n1")
        case kl: (Inl e)
        with key [of n1] have "isl (deserialize lib ?k n)" by simp
        with False ne Some Inr r kl show ?thesis
          by (simp add: object_item.simps [of lib item] entry_fails_def)
      next
        case kr: (Inr r2)
        with key [of n1] have "\<not> isl (deserialize lib ?k n)" by simp
        with False ne Some Inr r kr show ?thesis
          by (auto simp: object_item.simps [of lib item] entry_fails_def split: prod.splits)
      qed
    qed
  qed
qed


lemma entry_fails_indep:
  assumes "\<And>t n n'. length t \<le> length e
      \<Longrightarrow> isl (deserialize lib t n) = isl (deserialize lib t n')"
  shows "entry_fails lib e n = entry_fails lib e n'"
proof (cases "find_char e CHR ''=''")
  case None
  then show ?thesis by (simp add: entry_fails_def)
next
  case (Some i)
  let ?k = "trim (substr e 0 i)" and ?v = "trim (drop (i + 1) e)"
  have "length ?k \<le> length (substr e 0 i)" by (rule length_trim)
  then have "length ?k \<le> length e" by (simp add: substr_def)
  then have k: "isl (deserialize lib ?k n) = isl (deserialize lib ?k n')" by (rule assms)
  have "length ?v \<le> length (drop (i + 1) e)" by (rule length_trim)
  then have "length ?v \<le> length e" by simp
  then have v: "isl (deserialize lib ?v n) = isl (deserialize lib ?v n')" by (rule assms)
  from Some k v show ?thesis by (simp add: entry_fails_def)
qed

lemma object_items_indep:
  assumes "\<And>t n n'. length t < L \<Longrightarrow> isl (deserialize lib t n) = isl (deserialize lib t n')"
    and "\<forall>item \<in> set items. length item < L"
  shows "isl (object_items lib items m n) = isl (object_items lib items m' n')"
  using assms(2)
proof (induction items arbitrary: m m' n n')
  case Nil
  then show ?case by simp
next
  case (Cons item items)
  have small: "length item < L" using Cons.prems by simp
  have ih: "isl (deserialize lib t k) = isl (deserialize lib t k')" if "length t \<le> length item" for t k k'
    using that small assms(1) [of t k k'] by simp
  have ih': "isl (deserialize lib t k) = isl (deserialize lib t k')"
    if "length t \<le> length (trim item)" for t k k'
    using that length_trim [of item] ih [of t k k'] by simp
  have same: "isl (object_item lib item m n) = isl (object_item lib item m' n')"
    using object_item_fails_iff [of item lib m n] object_item_fails_iff [of item lib m' n']
      entry_fails_indep [of "trim item" lib n n'] ih ih' by blast
  show ?case
  proof (cases "object_item lib item m n")
    case (Inl e)
    with same show ?thesis by (cases "object_item lib item m' n'") auto
  next
    case (Inr r)
    with same obtain r' where r': "object_item lib item m' n' = Inr r'"
      by (cases "object_item lib item m' n'") auto
    obtain v k v' k' where "r = (v, k)" "r' = (v', k')" by (cases r; cases r')
    with Inr r' Cons.IH [of v k v' k'] Cons.prems show ?thesis by simp
  qed
qed

lemma deserialize_indep: "isl (deserialize lib s n) = isl (deserialize lib s n')"
proof (induction s arbitrary: n n' rule: length_induct)
  case (1 s)
  then have ih: "isl (deserialize lib t k) = isl (deserialize lib t k')" if "length t < length s" for t k k'
    using that by blast
  have "isl (Table_deserialize lib s n) = isl (Table_deserialize lib s n')"
  proof (cases "2 \<le> length s")
    case False
    then show ?thesis by (simp add: Table_deserialize_segments)
  next
    case True
    have items: "\<forall>item \<in> set (segments (content s) [] 0). length item < length s"
      using segments_length [of _ "content s" "[]" 0] content_length [OF True] by fastforce
    have a: "isl (array_items lib (segments (content s) [] 0) [] n)
        = isl (array_items lib (segments (content s) [] 0) [] n')"
      using ih items by (rule array_items_indep)
    have b: "isl (object_items lib (segments (content s) [] 0) [] n)
        = isl (object_items lib (segments (content s) [] 0) [] n')"
      using ih items by (rule object_items_indep)
    have c: "isl (case r of Inl e \<Rightarrow> Inl e | Inr (x, k) \<Rightarrow> Inr (f x, k)) = isl r"
      for r :: "error + ('x \<times> nat)" and f :: "'x \<Rightarrow> 'y"
      by (cases r) auto
    show ?thesis
      unfolding Table_deserialize_segments [of lib s] using a b by (simp add: c)
  qed
  then show ?case by (simp add: deserialize_fails_iff)
qed

lemma array_items_fails_iff:
  "isl (array_items lib items vec n)
     \<longleftrightarrow> (\<exists>item \<in> set items. trim item \<noteq> [] \<and> isl (deserialize lib (trim item) n))"
proof (induction items arbitrary: vec n)
  case Nil
  then show ?case by simp
next
  case (Cons item items)
  show ?case
  proof (cases "array_item lib item vec n")
    case (Inl e)
    then have "isl (array_item lib item vec n)" by simp
    then have "trim item \<noteq> [] \<and> isl (deserialize lib (trim item) n)"
      by (simp add: array_item_fails_iff)
    with Inl show ?thesis by simp
  next
    case (Inr r)
    obtain v k where r: "r = (v, k)" by (cases r)
    from Inr have "\<not> isl (array_item lib item vec n)" by simp
    then have head: "\<not> (trim item \<noteq> [] \<and> isl (deserialize lib (trim item) n))"
      by (simp add: array_item_fails_iff)
    have "isl (array_items lib (item # items) vec n) = isl (array_items lib items v k)"
      using Inr r by simp
    also have "\<dots> \<longleftrightarrow> (\<exists>item \<in> set items. trim item \<noteq> [] \<and> isl (deserialize lib (trim item) k))"
      by (rule Cons.IH)
    also have "\<dots> \<longleftrightarrow> (\<exists>item \<in> set items. trim item \<noteq> [] \<and> isl (deserialize lib (trim item) n))"
      using deserialize_indep [of lib _ k n] by simp
    finally show ?thesis using head by auto
  qed
qed

lemma object_items_fails_iff:
  "isl (object_items lib items m n)
     \<longleftrightarrow> (\<exists>item \<in> set items. trim item \<noteq> [] \<and> entry_fails lib (trim item) n)"
proof (induction items arbitrary: m n)
  case Nil
  then show ?case by simp
next
  case (Cons item items)
  have item: "isl (object_item lib item m n) \<longleftrightarrow> trim item \<noteq> [] \<and> entry_fails lib (trim item) n"
    by (rule object_item_fails_iff) (rule deserialize_indep)
  show ?case
  proof (cases "object_item lib item m n")
    case (Inl e)
    then have "isl (object_item lib item m n)" by simp
    with item Inl show ?thesis by simp
  next
    case (Inr r)
    obtain v k where r: "r = (v, k)" by (cases r)
    from Inr have head: "\<not> (trim item \<noteq> [] \<and> entry_fails lib (trim item) n)"
      using item by simp
    have "isl (object_items lib (item # items) m n) = isl (object_items lib items v k)"
      using Inr r by simp
    also have "\<dots> \<longleftrightarrow> (\<exists>item \<in> set items. trim item \<noteq> [] \<and> entry_fails lib (trim item) k)"
      by (rule Cons.IH)
    also have "\<dots> \<longleftrightarrow> (\<exists>item \<in> set items. trim item \<noteq> [] \<and> entry_fails lib (trim item) n)"
      using entry_fails_indep [of _ lib k n] deserialize_indep [of lib] by blast
    finally show ?thesis using head by auto
  qed
qed

lemma Table_deserialize_fails_iff:
  "isl (Table_deserialize lib s n) \<longleftrightarrow>
     s = [] \<or> (hd s \<noteq> CHR ''['' \<and> hd s \<noteq> CHR ''{'') \<or> lacks_closing s
     \<or> (hd s = CHR ''[''
          \<and> (\<exists>item \<in> set (segments (content s) [] 0).
                trim item \<noteq> [] \<and> isl (deserialize lib (trim item) n)))
     \<or> (hd s = CHR ''{''
          \<and> (\<exists>item \<in> set (segments (content s) [] 0).
                trim item \<noteq> [] \<and> entry_fails lib (trim item) n))"
proof -
  have c: "isl (case r of Inl e \<Rightarrow> Inl e | Inr (x, k) \<Rightarrow> Inr (f x, k)) = isl r"
    for r :: "error + ('x \<times> nat)" and f :: "'x \<Rightarrow> 'y"
    by (cases r) auto
  show ?thesis
    unfolding Table_deserialize_segments [of lib s]
    by (auto simp: c lacks_closing_def closing_def array_items_fails_iff object_items_fails_iff)
qed


text \<open>
  C7, amended. \<^verbatim>\<open>Value::deserialize\<close> fails exactly when the fragment is empty, or
  starts with \<^verbatim>\<open>[\<close> or \<^verbatim>\<open>{\<close> and the parsing of the table fails.
  \<^verbatim>\<open>Table::deserialize\<close> fails exactly when the fragment is empty, when it starts with
  neither \<^verbatim>\<open>[\<close> nor \<^verbatim>\<open>{\<close> ("Unknown type"), when it lacks the closing bracket of its
  kind as last character, when (array form) a non-blank segment of the interior fails to
  parse as a value, or when (object form) a non-blank segment has no \<^verbatim>\<open>=\<close> or has two
  non-empty sides one of which fails to parse. A failure is an error value and
  nothing else: \<^verbatim>\<open>[\<close> fails with "Malformed array".
\<close>

theorem parse_failures:
  "(isl (deserialize lib s n) \<longleftrightarrow>
      s = [] \<or> ((hd s = CHR ''['' \<or> hd s = CHR ''{'') \<and> isl (Table_deserialize lib s n)))
   \<and> (isl (Table_deserialize lib s n) \<longleftrightarrow>
        s = [] \<or> (hd s \<noteq> CHR ''['' \<and> hd s \<noteq> CHR ''{'') \<or> lacks_closing s
        \<or> (hd s = CHR ''[''
             \<and> (\<exists>item \<in> set (segments (content s) [] 0).
                   trim item \<noteq> [] \<and> isl (deserialize lib (trim item) n)))
        \<or> (hd s = CHR ''{''
             \<and> (\<exists>item \<in> set (segments (content s) [] 0).
                   trim item \<noteq> [] \<and> entry_fails lib (trim item) n)))
   \<and> deserialize lib [] n = Inl EmptyData
   \<and> Table_deserialize lib [] n = Inl EmptyData
   \<and> deserialize lib ''['' n = Inl MalformedArray
   \<and> Table_deserialize lib ''['' n = Inl MalformedArray
   \<and> Table_deserialize lib ''{1}'' n = Inl MissingEquals"
proof (intro conjI)
  show "isl (deserialize lib s n) \<longleftrightarrow>
      s = [] \<or> ((hd s = CHR ''['' \<or> hd s = CHR ''{'') \<and> isl (Table_deserialize lib s n))"
    by (rule deserialize_fails_iff)
  show "isl (Table_deserialize lib s n) \<longleftrightarrow>
        s = [] \<or> (hd s \<noteq> CHR ''['' \<and> hd s \<noteq> CHR ''{'') \<or> lacks_closing s
        \<or> (hd s = CHR ''[''
             \<and> (\<exists>item \<in> set (segments (content s) [] 0).
                   trim item \<noteq> [] \<and> isl (deserialize lib (trim item) n)))
        \<or> (hd s = CHR ''{''
             \<and> (\<exists>item \<in> set (segments (content s) [] 0).
                   trim item \<noteq> [] \<and> entry_fails lib (trim item) n))"
    by (rule Table_deserialize_fails_iff)
qed (simp_all add: parser_simps eval_defs)

text \<open>
  \<^verbatim>\<open>Table::deserialize\<close> fails on a fragment that is not empty, starts with no bracket
  and holds no entry.
\<close>

theorem unknown_type_failure:
  "Table_deserialize tenths_lib ''x'' 0 = Inl UnknownType
   \<and> ''x'' \<noteq> [] \<and> hd ''x'' \<noteq> CHR ''['' \<and> hd ''x'' \<noteq> CHR ''{''
   \<and> CHR ''='' \<notin> set ''x''"
  by (simp add: parser_simps)

theorem parse_failures_witness:
  "isl (deserialize tenths_lib ''[[1,2}]'' 0)
   \<and> hd ''[[1,2}]'' = CHR ''[''
   \<and> isl (Table_deserialize tenths_lib ''[[1,2}]'' 0)
   \<and> \<not> lacks_closing ''[[1,2}]''
   \<and> segments (content ''[[1,2}]'') [] 0 = [''[1,2}'']
   \<and> isl (deserialize tenths_lib (trim ''[1,2}'') 0)"
proof -
  have a: "isl (deserialize tenths_lib (trim ''[1,2}'') 0)"
    by (simp add: parser_simps eval_defs)
  have b: "segments (content ''[[1,2}]'') [] 0 = [''[1,2}'']"
    by (simp add: content_def substr_def)
  have c: "\<not> lacks_closing ''[[1,2}]''"
    by (simp add: lacks_closing_def closing_def)
  have d: "trim ''[1,2}'' \<noteq> []"
    by (simp add: eval_defs)
  from a b c d parse_failures [of tenths_lib "''[[1,2}]''" 0]
  show ?thesis by simp
qed

section \<open>The first \<^verbatim>\<open>=\<close> of an entry\<close>

lemma find_char_first:
  "find_char s c = Some i \<Longrightarrow> take i s = takeWhile (\<lambda>x. x \<noteq> c) s
     \<and> drop (i + 1) s = drop 1 (dropWhile (\<lambda>x. x \<noteq> c) s)"
  by (induction s arbitrary: i) (auto split: if_splits)

lemma find_char_Some: "c \<in> set s \<Longrightarrow> \<exists>i. find_char s c = Some i"
  by (induction s) auto

text \<open>
  C8, amended. In every segment of an object that contains \<^verbatim>\<open>=\<close>, the first \<^verbatim>\<open>=\<close>
  splits the key text from the value text, also when the value text contains another
  \<^verbatim>\<open>=\<close>, and both sides are trimmed. When both sides are non-empty, each is parsed as
  a value and the pair is stored; when a side is empty the entry is dropped and neither
  side is parsed.
\<close>

theorem first_equals_splits:
  "(CHR ''='' \<in> set (trim item) \<longrightarrow>
      object_item lib item m n =
        (if trim (key_text (trim item)) = [] \<or> trim (value_text (trim item)) = []
         then Inr (m, n) else parse_entry lib (trim item) m n))
   \<and> Table_deserialize lib ''{\"a\"=b=c}'' n
       = Inr (Table_of_map [(VString ''a'', VString ''b=c'')], n)"
proof (intro conjI impI)
  assume eq: "CHR ''='' \<in> set (trim item)"
  then obtain i where i: "find_char (trim item) CHR ''='' = Some i"
    using find_char_Some by blast
  from eq have t: "trim item \<noteq> []" by auto
  then have ne: "item \<noteq> []" by (auto simp: trim_dropWhile)
  from find_char_first [OF i]
  have k: "substr (trim item) 0 i = key_text (trim item)"
    and v: "drop (i + 1) (trim item) = value_text (trim item)"
    by (simp_all add: substr_def key_text_def value_text_def)
  show "object_item lib item m n =
        (if trim (key_text (trim item)) = [] \<or> trim (value_text (trim item)) = []
         then Inr (m, n) else parse_entry lib (trim item) m n)"
    unfolding object_item.simps [of lib item] i option.case k v parse_entry_def
    using t ne by auto
qed (simp add: parser_simps eval_defs value_less_def)

text \<open>
  On the segment \<^verbatim>\<open>=1\<close> the parser returns the map unchanged, where parsing both sides
  fails on the empty key.
\<close>

theorem empty_side_not_parsed:
  "CHR ''='' \<in> set (trim ''=1'')
   \<and> object_item tenths_lib ''=1'' [] 0 = Inr ([], 0)
   \<and> parse_entry tenths_lib (trim ''=1'') [] 0 = Inl EmptyData"
  by (simp add: parser_simps eval_defs parse_entry_def key_text_def value_text_def)

theorem first_equals_splits_witness:
  "CHR ''='' \<in> set (trim '' k = v=w '')
   \<and> trim (key_text (trim '' k = v=w '')) = ''k''
   \<and> trim (value_text (trim '' k = v=w '')) = ''v=w''
   \<and> object_item tenths_lib '' k = v=w '' [] 0 = Inr ([(VString ''k'', VString ''v=w'')], 0)"
proof -
  have a: "trim '' k = v=w '' = ''k = v=w''" by (simp add: eval_defs)
  have b: "parse_entry tenths_lib ''k = v=w'' [] 0 = Inr ([(VString ''k'', VString ''v=w'')], 0)"
    by (simp add: parser_simps eval_defs parse_entry_def key_text_def value_text_def)
  from a b first_equals_splits [of "'' k = v=w ''" tenths_lib "[]" 0]
  show ?thesis by (simp add: key_text_def value_text_def eval_defs)
qed

section \<open>The round trip through text\<close>

subsection \<open>Integers\<close>

lemma digit_char_digit: "d < 10 \<Longrightarrow> isdigit (digit_char d) \<and> digit_val (digit_char d) = d"
proof -
  assume "d < 10"
  then have "d \<in> set [0..<10]" by simp
  moreover have "list_all (\<lambda>d. isdigit (digit_char d) \<and> digit_val (digit_char d) = d) [0..<10]"
    by code_simp
  ultimately show ?thesis unfolding list_all_iff by blast
qed

lemma show_nat_digits: "list_all isdigit (show_nat n)"
proof (induction n rule: show_nat.induct)
  case (1 n)
  show ?case
  proof (cases "n < 10")
    case True
    then show ?thesis by (subst show_nat.simps) (simp add: digit_char_digit)
  next
    case False
    with 1 show ?thesis by (subst show_nat.simps) (simp add: digit_char_digit)
  qed
qed

lemma show_nat_nonempty: "show_nat n \<noteq> []"
  by (subst show_nat.simps) simp

lemma digits_val_snoc: "digits_val (ds @ [c]) = 10 * digits_val ds + digit_val c"
  by (simp add: digits_val_def)

lemma digits_val_show_nat: "digits_val (show_nat n) = n"
proof (induction n rule: show_nat.induct)
  case (1 n)
  show ?case
  proof (cases "n < 10")
    case True
    then show ?thesis
      by (subst show_nat.simps) (simp add: digits_val_def digit_char_digit)
  next
    case False
    with 1 have "digits_val (show_nat (n div 10)) = n div 10" by simp
    with False show ?thesis
      by (subst show_nat.simps) (simp add: digits_val_snoc digit_char_digit)
  qed
qed

lemma takeWhile_all: "list_all P xs \<Longrightarrow> takeWhile P xs = xs"
  by (induction xs) auto

lemma digit_not_special:
  assumes "isdigit c"
  shows "\<not> isspace c" "c \<noteq> CHR ''-''" "c \<noteq> CHR ''+''" "c \<noteq> CHR ''.''"
  using assms by (auto simp: isdigit_def digit_chars_def isspace_def)

lemma stoi_show_int: "stoi (show_int (sint i)) = Some i"
proof -
  let ?k = "sint i"
  have range: "- (2 ^ 31) \<le> ?k" "?k \<le> 2 ^ 31 - 1"
    using sint_ge [of i] sint_lt [of i] by simp_all
  have wi: "word_of_int ?k = i" by simp
  show ?thesis
  proof (cases "?k < 0")
    case True
    let ?ds = "show_nat (nat (- ?k))"
    have shown: "show_int ?k = CHR ''-'' # ?ds" using True by (simp add: show_int_def)
    have tw: "takeWhile isdigit ?ds = ?ds" by (simp add: takeWhile_all show_nat_digits)
    have val: "- int (digits_val ?ds) = ?k" using True by (simp add: digits_val_show_nat)
    have "stoi (CHR ''-'' # ?ds) = Some (word_of_int ?k)"
      unfolding stoi_def using range
      by (simp add: strip_sign_def isspace_def tw val show_nat_nonempty)
    then show ?thesis by (simp only: shown wi)
  next
    case False
    let ?ds = "show_nat (nat ?k)"
    obtain c r where cr: "?ds = c # r" using show_nat_nonempty [of "nat ?k"] by (cases ?ds) auto
    then have "isdigit c" using show_nat_digits [of "nat ?k"] by simp
    note c = digit_not_special [OF this]
    have shown: "show_int ?k = ?ds" using False by (simp add: show_int_def)
    have tw: "takeWhile isdigit ?ds = ?ds" by (simp add: takeWhile_all show_nat_digits)
    have val: "int (digits_val ?ds) = ?k" using False by (simp add: digits_val_show_nat)
    have dw: "dropWhile isspace ?ds = ?ds" using cr c by simp
    have ss: "strip_sign ?ds = (False, ?ds)" using cr c by (simp add: strip_sign_def)
    have "stoi ?ds = Some (word_of_int ?k)"
      unfolding stoi_def using range
      by (simp add: dw ss tw val show_nat_nonempty)
    then show ?thesis by (simp only: shown wi)
  qed
qed

lemma show_int_chars: "list_all (\<lambda>c. isdigit c \<or> c = CHR ''-'') (show_int k)"
proof -
  have "list_all (\<lambda>c. isdigit c \<or> c = CHR ''-'') (show_nat n)" for n
    using show_nat_digits [of n] by (simp add: list_all_iff)
  then show ?thesis by (simp add: show_int_def)
qed

lemma show_int_nonempty: "show_int k \<noteq> []"
  by (simp add: show_int_def show_nat_nonempty)


subsection \<open>Texts under the scan\<close>

lemma segments_quiet:
  "quiet d s \<Longrightarrow> segments (s @ rest) item d = segments rest (item @ s) (depth_after d s)"
  by (induction s arbitrary: item d) (auto split: if_splits)

lemma depth_after_append: "depth_after d (s @ t) = depth_after (depth_after d s) t"
  by (induction s arbitrary: d) auto

lemma quiet_append: "quiet d (s @ t) \<longleftrightarrow> quiet d s \<and> quiet (depth_after d s) t"
  by (induction s arbitrary: d) auto

lemma balanced_inner: "balanced s \<Longrightarrow> inner s"
  by (simp add: balanced_def inner_def)

lemma balanced_append: "balanced s \<Longrightarrow> balanced t \<Longrightarrow> balanced (s @ t)"
  by (simp add: balanced_def quiet_append depth_after_append)

lemma inner_append: "inner s \<Longrightarrow> inner t \<Longrightarrow> inner (s @ t)"
  by (simp add: inner_def quiet_append depth_after_append)

lemma inner_comma: "inner '',''"
  by (simp add: inner_def)

lemma inner_Nil: "inner []"
  by (simp add: inner_def)

lemma balanced_plain: "plain s \<Longrightarrow> balanced s"
proof -
  assume "plain s"
  then have "quiet d s \<and> depth_after d s = d" for d
    by (induction s arbitrary: d) (auto simp: plain_def)
  then show ?thesis by (simp add: balanced_def)
qed

lemma balanced_brackets:
  assumes "inner s"
  shows "balanced (''['' @ s @ '']'')" "balanced (''{'' @ s @ ''}'')"
  using assms by (simp_all add: balanced_def inner_def quiet_append depth_after_append)

lemma inner_join: "\<forall>t \<in> set ts. inner t \<Longrightarrow> inner (join '','' ts)"
proof (induction ts)
  case Nil
  then show ?case by (simp add: inner_Nil)
next
  case (Cons t ts)
  show ?case
  proof (cases ts)
    case Nil
    with Cons.prems show ?thesis by simp
  next
    case (Cons u us)
    have tail: "inner (join '','' ts)" using Cons.IH Cons.prems by simp
    have sep: "inner ('','' @ join '','' ts)" using inner_comma tail by (rule inner_append)
    have "inner t" using Cons.prems by simp
    then have "inner (t @ '','' @ join '','' ts)" using sep by (rule inner_append)
    with Cons show ?thesis by simp
  qed
qed

lemma segments_join:
  "\<forall>t \<in> set ts. balanced t \<Longrightarrow> ts \<noteq> []
     \<Longrightarrow> segments (join '','' ts) item 0 = (item @ hd ts) # tl ts"
proof (induction ts arbitrary: item)
  case Nil
  then show ?case by simp
next
  case (Cons t ts)
  then have t: "quiet 0 t" "depth_after 0 t = 0" by (simp_all add: balanced_def)
  show ?case
  proof (cases ts)
    case Nil
    then show ?thesis using segments_quiet [OF t(1), of "[]" item] t(2) by simp
  next
    case (Cons u us)
    have "segments (join '','' (t # ts)) item 0 = segments ('','' @ join '','' ts) (item @ t) 0"
      using segments_quiet [OF t(1), of "'','' @ join '','' ts" item] t(2) Cons by simp
    also have "\<dots> = (item @ t) # segments (join '','' ts) [] 0" by simp
    also have "segments (join '','' ts) [] 0 = ([] @ hd ts) # tl ts"
      using Cons.prems Cons by (intro Cons.IH) simp_all
    finally show ?thesis using Cons by simp
  qed
qed

lemma dropWhile_hd: "xs \<noteq> [] \<Longrightarrow> \<not> P (hd xs) \<Longrightarrow> dropWhile P xs = xs"
  by (cases xs) auto

lemma trim_tight: "tight s \<Longrightarrow> trim s = s"
proof -
  assume t: "tight s"
  then have 1: "dropWhile blank s = s" by (simp add: tight_def dropWhile_hd)
  from t have "rev s \<noteq> []" "\<not> blank (hd (rev s))" by (simp_all add: tight_def hd_rev)
  then have "dropWhile blank (rev s) = rev s" by (rule dropWhile_hd)
  with 1 show ?thesis by (simp add: trim_dropWhile)
qed

lemma tight_append: "tight s \<Longrightarrow> tight t \<Longrightarrow> tight (s @ u @ t)"
  by (auto simp: tight_def)


subsection \<open>Scalars\<close>

lemma numeric_text_props:
  assumes "numeric_text s" "s \<noteq> []"
  shows "balanced s" "tight s" "CHR ''='' \<notin> set s"
proof -
  have "list_all (\<lambda>c. c \<notin> set '',[]{}'' \<and> \<not> blank c \<and> c \<noteq> CHR ''='') ''0123456789.-''"
    by code_simp
  then have c: "c \<in> set ''0123456789.-'' \<Longrightarrow> c \<notin> set '',[]{}'' \<and> \<not> blank c \<and> c \<noteq> CHR ''=''"
    for c unfolding list_all_iff by blast
  from assms(1) have mem: "\<forall>x \<in> set s. x \<in> set ''0123456789.-''"
    by (simp only: numeric_text_def list_all_iff)
  have "plain s" unfolding plain_def list_all_iff using mem c by blast
  then show "balanced s" by (rule balanced_plain)
  from assms(2) have "hd s \<in> set s" "last s \<in> set s" by simp_all
  with assms(2) show "tight s" unfolding tight_def using mem c by blast
  show "CHR ''='' \<notin> set s" using mem c by blast
qed

lemma show_int_numeric: "numeric_text (show_int k)"
proof -
  have "isdigit c \<or> c = CHR ''-'' \<Longrightarrow> c \<in> set ''0123456789.-''" for c
    by (auto simp: isdigit_def digit_chars_def)
  with show_int_chars [of k] show ?thesis
    by (simp add: numeric_text_def list_all_iff)
qed

lemma show_int_no_point: "CHR ''.'' \<notin> set (show_int k)"
  using show_int_chars [of k] digit_not_special(4) by (auto simp: list_all_iff)

lemma deserialize_int: "deserialize lib (show_int (sint i)) n = Inr (VInt i, n)"
  unfolding deserialize.simps [of lib "show_int (sint i)"]
  by (simp add: show_int_nonempty find_char_None show_int_no_point stoi_show_int)

lemma deserialize_float:
  assumes "float_text_ok lib f"
  shows "deserialize lib (put_float lib f) n = Inr (reparsed lib (VFloat f), n)"
proof -
  from assms obtain g where g: "stof lib (put_float lib f) = Some g"
    by (auto simp: float_text_ok_def split: option.splits)
  from assms have p: "CHR ''.'' \<in> set (put_float lib f)" by (simp add: float_text_ok_def)
  then have "put_float lib f \<noteq> []" by auto
  with g p show ?thesis
    unfolding deserialize.simps [of lib "put_float lib f"]
    by (simp add: find_char_None reparsed_def)
qed

lemma deserialize_bool: "deserialize lib (if b then ''true'' else ''false'') n = Inr (VBool b, n)"
  by (simp add: parser_simps eval_defs)

lemma deserialize_string: "deserialize lib (CHR 0x22 # s @ [CHR 0x22]) n = Inr (VString s, n)"
proof -
  let ?t = "CHR 0x22 # s @ [CHR 0x22]"
  have num: "stoi ?t = None" "stof lib ?t = None"
    by (rule no_number_at_bracket; simp)+
  have sub: "substr ?t 1 (length ?t - 2) = s" by (simp add: substr_def)
  show ?thesis
    unfolding deserialize.simps [of lib ?t] num sub
    by simp
qed

lemma scalar_roundtrip:
  assumes "scalar_ok lib v"
  shows "deserialize lib (serialize lib v) n = Inr (reparsed lib v, n)"
    and "same_content lib v (reparsed lib v)"
    and "tight (serialize lib v)"
    and "balanced (serialize lib v)"
proof -
  have "deserialize lib (serialize lib v) n = Inr (reparsed lib v, n)
      \<and> same_content lib v (reparsed lib v) \<and> tight (serialize lib v) \<and> balanced (serialize lib v)"
  proof (cases v)
    case (VInt i)
    then show ?thesis
      using numeric_text_props [OF show_int_numeric show_int_nonempty, of "sint i"]
      by (simp add: deserialize_int reparsed_def)
  next
    case (VFloat f)
    with assms have ok: "float_text_ok lib f" by (simp add: scalar_ok_def)
    then have "numeric_text (put_float lib f)" "put_float lib f \<noteq> []"
      by (auto simp: float_text_ok_def numeric_text_def)
    from numeric_text_props [OF this] deserialize_float [OF ok] ok VFloat show ?thesis
      by (auto simp: reparsed_def float_text_ok_def split: option.splits)
  next
    case (VBool b)
    then show ?thesis
      using deserialize_bool [of lib b n]
      by (cases b) (simp_all add: reparsed_def tight_def blank_def blank_chars_def
          balanced_plain plain_def)
  next
    case (VString x)
    with assms have "plain x" by (simp add: scalar_ok_def)
    then have "plain (CHR 0x22 # x @ [CHR 0x22])" by (simp add: plain_def)
    then have "balanced (CHR 0x22 # x @ [CHR 0x22])" by (rule balanced_plain)
    with VString show ?thesis
      by (simp add: deserialize_string reparsed_def tight_def blank_def blank_chars_def)
  next
    case (VTable a t)
    with assms show ?thesis by (simp add: scalar_ok_def)
  qed
  then show "deserialize lib (serialize lib v) n = Inr (reparsed lib v, n)"
    and "same_content lib v (reparsed lib v)"
    and "tight (serialize lib v)"
    and "balanced (serialize lib v)" by simp_all
qed

lemma key_no_equals: "key_ok lib k \<Longrightarrow> CHR ''='' \<notin> set (serialize lib k)"
proof (cases k)
  case (VInt i)
  then show ?thesis
    using numeric_text_props(3) [OF show_int_numeric show_int_nonempty, of "sint i"] by simp
next
  case (VFloat f)
  assume "key_ok lib k"
  with VFloat have "numeric_text (put_float lib f)" "put_float lib f \<noteq> []"
    by (auto simp: key_ok_def scalar_ok_def float_text_ok_def numeric_text_def)
  from numeric_text_props(3) [OF this] VFloat show ?thesis by simp
next
  case (VBool b)
  then show ?thesis by simp
next
  case (VString x)
  assume "key_ok lib k"
  with VString show ?thesis by (simp add: key_ok_def)
next
  case (VTable a t)
  assume "key_ok lib k"
  with VTable show ?thesis by (simp add: key_ok_def scalar_ok_def)
qed


subsection \<open>The elements of an array and the entries of a map\<close>

lemma array_items_texts:
  assumes "\<forall>v \<in> set vs. tight (serialize lib v)
      \<and> (\<forall>n. \<exists>w n'. deserialize lib (serialize lib v) n = Inr (w, n') \<and> same_content lib v w)"
  shows "\<exists>ws n'. array_items lib (map (serialize lib) vs) vec n = Inr (vec @ ws, n')
      \<and> list_all2 (same_content lib) vs ws"
  using assms
proof (induction vs arbitrary: vec n)
  case Nil
  then show ?case by simp
next
  case (Cons v vs)
  let ?t = "serialize lib v"
  from Cons.prems have t: "tight ?t" by simp
  then have trim: "trim ?t = ?t" "?t \<noteq> []" by (simp_all add: trim_tight tight_def)
  from Cons.prems obtain w n1 where w: "deserialize lib ?t n = Inr (w, n1)" "same_content lib v w"
    by fastforce
  have item: "array_item lib ?t vec n = Inr (vec @ [w], n1)"
    using trim w(1) by (simp add: array_item.simps [of lib ?t])
  from Cons.prems have "\<forall>v \<in> set vs. tight (serialize lib v)
      \<and> (\<forall>n. \<exists>w n'. deserialize lib (serialize lib v) n = Inr (w, n') \<and> same_content lib v w)"
    by simp
  from Cons.IH [OF this, of "vec @ [w]" n1]
  obtain ws n' where ws: "array_items lib (map (serialize lib) vs) (vec @ [w]) n1
      = Inr ((vec @ [w]) @ ws, n')" "list_all2 (same_content lib) vs ws" by blast
  have "array_items lib (map (serialize lib) (v # vs)) vec n = Inr (vec @ (w # ws), n')"
    using item ws(1) by simp
  moreover have "list_all2 (same_content lib) (v # vs) (w # ws)" using w(2) ws(2) by simp
  ultimately show ?case by blast
qed

lemma find_char_append: "c \<notin> set s \<Longrightarrow> find_char (s @ c # t) c = Some (length s)"
  by (induction s) auto

lemma object_item_entry:
  assumes "key_ok lib k" "tight (serialize lib v)"
    and "deserialize lib (serialize lib v) n = Inr (w, n1)"
  shows "object_item lib (entry_text lib (k, v)) m n = Inr (map_set lib (reparsed lib k) w m, n1)"
proof -
  let ?k = "serialize lib k" and ?v = "serialize lib v"
  let ?e = "?k @ ''='' @ ?v"
  from assms(1) have sk: "scalar_ok lib k" by (simp add: key_ok_def)
  have tk: "tight ?k" using sk by (rule scalar_roundtrip(3))
  have "tight ?e" using tk assms(2) by (rule tight_append)
  then have e: "trim ?e = ?e" "?e \<noteq> []" by (simp_all add: trim_tight tight_def)
  have eq: "find_char ?e CHR ''='' = Some (length ?k)"
    using key_no_equals [OF assms(1)] by (simp add: find_char_append)
  have key: "trim (substr ?e 0 (length ?k)) = ?k" "?k \<noteq> []"
    using tk by (simp_all add: substr_def trim_tight tight_def)
  have val: "trim (drop (length ?k + 1) ?e) = ?v" "?v \<noteq> []"
    using assms(2) by (simp_all add: trim_tight tight_def)
  have dk: "deserialize lib ?k n1 = Inr (reparsed lib k, n1)"
    using sk by (rule scalar_roundtrip(1))
  show ?thesis
    unfolding entry_text_def fst_conv snd_conv object_item.simps [of lib ?e] e eq option.case
      key val
    using key(2) val(2) e(2) assms(3) dk by simp
qed

lemma ascending_append:
  "ascending lib (xs @ k # ys) \<Longrightarrow> \<forall>x \<in> set xs. value_less lib x k \<and> \<not> value_less lib k x"
  by (induction xs) (auto simp: list_all_iff)

lemma object_items_texts:
  assumes "\<forall>p \<in> set ps. key_ok lib (fst p) \<and> tight (serialize lib (snd p))
      \<and> (\<forall>n. \<exists>w n'. deserialize lib (serialize lib (snd p)) n = Inr (w, n')
                      \<and> same_content lib (snd p) w)"
    and "ascending lib (map fst m @ map (\<lambda>p. reparsed lib (fst p)) ps)"
  shows "\<exists>qs n'. object_items lib (map (entry_text lib) ps) m n = Inr (m @ qs, n')
      \<and> same_entries lib ps qs"
  using assms
proof (induction ps arbitrary: m n)
  case Nil
  then show ?case by simp
next
  case (Cons p ps)
  obtain k v where p: "p = (k, v)" by (cases p)
  from Cons.prems(1) p have k: "key_ok lib k" and tv: "tight (serialize lib v)" by simp_all
  from Cons.prems(1) p obtain w n1
    where w: "deserialize lib (serialize lib v) n = Inr (w, n1)" "same_content lib v w"
    by fastforce
  let ?k = "reparsed lib k"
  have below: "\<forall>x \<in> set (map fst m). value_less lib x ?k \<and> \<not> value_less lib ?k x"
    using Cons.prems(2) p ascending_append [of lib "map fst m" ?k] by simp
  then have "\<forall>q \<in> set m. value_less lib (fst q) ?k \<and> \<not> value_less lib ?k (fst q)" by simp
  then have ins: "map_set lib ?k w m = m @ [(?k, w)]" by (rule map_set_append)
  have item: "object_item lib (entry_text lib p) m n = Inr (m @ [(?k, w)], n1)"
    using object_item_entry [OF k tv w(1), of m] ins p by simp
  have rest: "\<forall>p \<in> set ps. key_ok lib (fst p) \<and> tight (serialize lib (snd p))
      \<and> (\<forall>n. \<exists>w n'. deserialize lib (serialize lib (snd p)) n = Inr (w, n')
                      \<and> same_content lib (snd p) w)"
    using Cons.prems(1) by simp
  have asc: "ascending lib (map fst (m @ [(?k, w)]) @ map (\<lambda>p. reparsed lib (fst p)) ps)"
    using Cons.prems(2) p by simp
  from Cons.IH [OF rest asc, of n1]
  obtain qs n' where qs: "object_items lib (map (entry_text lib) ps) (m @ [(?k, w)]) n1
      = Inr ((m @ [(?k, w)]) @ qs, n')" "same_entries lib ps qs" by blast
  have "object_items lib (map (entry_text lib) (p # ps)) m n = Inr (m @ ((?k, w) # qs), n')"
    using item qs(1) by simp
  moreover have "same_content lib k ?k"
    using k by (intro scalar_roundtrip(2)) (simp add: key_ok_def)
  then have "same_entries lib (p # ps) ((?k, w) # qs)" using p w(2) qs(2) by simp
  ultimately show ?case by blast
qed

lemma same_values_zip:
  "list_all2 (same_content lib) (map snd d) ws \<Longrightarrow> length ks = length ws
     \<Longrightarrow> same_values lib d (zip ks ws)"
proof (induction d arbitrary: ws ks)
  case Nil
  then show ?case by simp
next
  case (Cons p d)
  obtain k v where p: "p = (k, v)" by (cases p)
  from Cons.prems obtain w ws' where ws: "ws = w # ws'" by (cases ws) auto
  with Cons.prems obtain k' ks' where ks: "ks = k' # ks'" by (cases ks) auto
  from Cons.prems ws ks p Cons.IH [of ws' ks'] show ?case by simp
qed


subsection \<open>Values and tables\<close>

lemma values_ok_iff: "values_ok lib d \<longleftrightarrow> (\<forall>p \<in> set d. nested_ok lib (snd p))"
  by (induction d) auto

lemma entries_ok_iff:
  "entries_ok lib d \<longleftrightarrow> (\<forall>p \<in> set d. key_ok lib (fst p) \<and> nested_ok lib (snd p))"
  by (induction d) auto

lemma content_brackets: "content (c # s @ [e]) = s"
  by (simp add: content_def substr_def)

lemma deserialize_bracket:
  assumes "s \<noteq> []" "hd s = CHR ''['' \<or> hd s = CHR ''{''"
  shows "deserialize lib s n =
     (case Table_deserialize lib s n of
        Inl e \<Rightarrow> Inl e
      | Inr (t, n') \<Rightarrow> Inr (VTable n' t, Suc n'))"
proof -
  from assms have num: "stoi s = None" "stof lib s = None"
    by (auto intro: no_number_at_bracket)
  from assms obtain c r where s: "s = c # r" by (cases s) auto
  with assms(2) have c: "c = CHR ''['' \<or> c = CHR ''{''" by simp
  show ?thesis
    unfolding deserialize.simps [of lib s] num
    using c by (auto simp: s)
qed

lemma array_text_roundtrip:
  assumes len: "length d \<le> 2 ^ 31"
    and vals: "\<forall>p \<in> set d. tight (serialize lib (snd p)) \<and> balanced (serialize lib (snd p))
      \<and> (\<forall>n. \<exists>w n'. deserialize lib (serialize lib (snd p)) n = Inr (w, n')
                      \<and> same_content lib (snd p) w)"
  shows "\<exists>u n'. Table_deserialize lib (Table_serialize lib (Table d True)) n = Inr (u, n')
      \<and> same_table lib (Table d True) u"
proof -
  let ?texts = "map (serialize lib) (map snd d)"
  let ?s = "CHR ''['' # join '','' ?texts @ '']''"
  have s: "Table_serialize lib (Table d True) = ?s"
    by (simp add: array_out_join comp_def)
  have shape: "?s \<noteq> []" "hd ?s = CHR ''[''" "\<not> (length ?s < 2 \<or> last ?s \<noteq> CHR '']'')"
    by simp_all
  have cont: "content ?s = join '','' ?texts" by (rule content_brackets)
  have items: "\<exists>ws n'. array_items lib (segments (content ?s) [] 0) [] n = Inr (ws, n')
      \<and> list_all2 (same_content lib) (map snd d) ws"
  proof (cases "d = []")
    case True
    then show ?thesis by (simp add: content_def substr_def array_item.simps [of lib "[]"])
  next
    case False
    have "\<forall>t \<in> set ?texts. balanced t" using vals by simp
    moreover have "?texts \<noteq> []" using False by simp
    ultimately have "segments (join '','' ?texts) [] 0 = ([] @ hd ?texts) # tl ?texts"
      by (rule segments_join)
    then have seg: "segments (content ?s) [] 0 = ?texts"
      using False by (simp add: content_brackets)
    have "\<forall>v \<in> set (map snd d). tight (serialize lib v)
      \<and> (\<forall>n. \<exists>w n'. deserialize lib (serialize lib v) n = Inr (w, n') \<and> same_content lib v w)"
      using vals by simp
    from array_items_texts [OF this, of "[]" n] show ?thesis unfolding seg by simp
  qed
  then obtain ws n' where ws: "array_items lib (segments (content ?s) [] 0) [] n = Inr (ws, n')"
    "list_all2 (same_content lib) (map snd d) ws" by blast
  have parsed: "Table_deserialize lib ?s n = Inr (Table_of_vector lib ws, n')"
    unfolding Table_deserialize_segments [of lib ?s] using shape ws(1) by simp
  have "length ws = length d" using ws(2) by (auto dest: list_all2_lengthD)
  with len have data: "table_data (Table_of_vector lib ws) = zip (map index_key [0..<length ws]) ws"
    by (intro Table_of_vector_data) simp
  have "same_values lib d (zip (map index_key [0..<length ws]) ws)"
    using ws(2) by (rule same_values_zip) simp
  then have "same_table lib (Table d True) (Table_of_vector lib ws)"
    using data by (simp add: Table_of_vector_def)
  with parsed s show ?thesis by auto
qed

lemma map_text_roundtrip:
  assumes keys: "\<forall>p \<in> set d. key_ok lib (fst p)"
    and asc: "ascending lib (map (\<lambda>p. reparsed lib (fst p)) d)"
    and vals: "\<forall>p \<in> set d. tight (serialize lib (snd p)) \<and> balanced (serialize lib (snd p))
      \<and> (\<forall>n. \<exists>w n'. deserialize lib (serialize lib (snd p)) n = Inr (w, n')
                      \<and> same_content lib (snd p) w)"
  shows "balanced (Table_serialize lib (Table d False))"
    and "\<exists>u n'. Table_deserialize lib (Table_serialize lib (Table d False)) n = Inr (u, n')
      \<and> same_table lib (Table d False) u"
proof -
  let ?texts = "map (entry_text lib) d"
  let ?s = "CHR ''{'' # join '','' ?texts @ ''}''"
  have s: "Table_serialize lib (Table d False) = ?s"
    by (simp add: map_out_join)
  have bal: "\<forall>t \<in> set ?texts. balanced t"
  proof
    fix t assume "t \<in> set ?texts"
    then obtain p where p: "p \<in> set d" "t = entry_text lib p" by auto
    with keys have "scalar_ok lib (fst p)" by (simp add: key_ok_def)
    then have "balanced (serialize lib (fst p))" by (rule scalar_roundtrip(4))
    moreover have "balanced ''=''" by (rule balanced_plain) (simp add: plain_def)
    moreover have "balanced (serialize lib (snd p))" using vals p(1) by simp
    ultimately show "balanced t" unfolding p(2) entry_text_def
      by (intro balanced_append)
  qed
  then have "inner (join '','' ?texts)" by (intro inner_join) (simp add: balanced_inner)
  then have "balanced (''{'' @ join '','' ?texts @ ''}'')" by (rule balanced_brackets(2))
  then show "balanced (Table_serialize lib (Table d False))" by (simp add: map_out_join)
  have shape: "?s \<noteq> []" "hd ?s \<noteq> CHR ''[''" "hd ?s = CHR ''{''"
    "\<not> (length ?s < 2 \<or> last ?s \<noteq> CHR ''}'')"
    by simp_all
  have cont: "content ?s = join '','' ?texts" by (rule content_brackets)
  have items: "\<exists>qs n'. object_items lib (segments (content ?s) [] 0) [] n = Inr (qs, n')
      \<and> same_entries lib d qs"
  proof (cases "d = []")
    case True
    then show ?thesis by (simp add: content_def substr_def object_item.simps [of lib "[]"])
  next
    case False
    then have "?texts \<noteq> []" by simp
    with bal have "segments (join '','' ?texts) [] 0 = ([] @ hd ?texts) # tl ?texts"
      by (rule segments_join)
    then have seg: "segments (content ?s) [] 0 = ?texts"
      using False by (simp add: content_brackets)
    have "\<forall>p \<in> set d. key_ok lib (fst p) \<and> tight (serialize lib (snd p))
      \<and> (\<forall>n. \<exists>w n'. deserialize lib (serialize lib (snd p)) n = Inr (w, n')
                      \<and> same_content lib (snd p) w)"
      using keys vals by simp
    moreover have "ascending lib (map fst [] @ map (\<lambda>p. reparsed lib (fst p)) d)"
      using asc by simp
    ultimately show ?thesis
      using object_items_texts [of d lib "[]" n] by (simp add: seg)
  qed
  then obtain qs n' where qs: "object_items lib (segments (content ?s) [] 0) [] n = Inr (qs, n')"
    "same_entries lib d qs" by blast
  have parsed: "Table_deserialize lib ?s n = Inr (Table_of_map qs, n')"
    unfolding Table_deserialize_segments [of lib ?s] using shape qs(1) by simp
  have "same_table lib (Table d False) (Table_of_map qs)"
    using qs(2) by (simp add: Table_of_map_def)
  with parsed s
  show "\<exists>u n'. Table_deserialize lib (Table_serialize lib (Table d False)) n = Inr (u, n')
      \<and> same_table lib (Table d False) u" by auto
qed

lemma array_text_balanced:
  assumes "\<forall>p \<in> set d. balanced (serialize lib (snd p))"
  shows "balanced (Table_serialize lib (Table d True))"
proof -
  have "\<forall>t \<in> set (map (\<lambda>p. serialize lib (snd p)) d). inner t"
    using assms by (simp add: balanced_inner)
  then have "inner (join '','' (map (\<lambda>p. serialize lib (snd p)) d))" by (rule inner_join)
  then have "balanced (''['' @ join '','' (map (\<lambda>p. serialize lib (snd p)) d) @ '']'')"
    by (rule balanced_brackets(1))
  then show ?thesis by (simp add: array_out_join)
qed

lemma table_text_shape:
  "tight (Table_serialize lib t)
   \<and> (hd (Table_serialize lib t) = CHR ''['' \<or> hd (Table_serialize lib t) = CHR ''{'')"
  by (cases t) (simp add: tight_def blank_def blank_chars_def)

lemma nested_roundtrip:
  "(nested_ok (lib :: 'f float_lib) v \<longrightarrow>
      tight (serialize lib v) \<and> balanced (serialize lib v)
      \<and> (\<forall>n. \<exists>w n'. deserialize lib (serialize lib v) n = Inr (w, n') \<and> same_content lib v w))
   \<and> (table_ok lib t \<longrightarrow>
        balanced (Table_serialize lib t)
        \<and> (\<forall>n. \<exists>u n'. Table_deserialize lib (Table_serialize lib t) n = Inr (u, n')
                        \<and> same_table lib t u))"
  (is "?P v \<and> ?Q t")
proof (rule Value_Table.induct [of ?P ?Q v t])
  fix i show "?P (VInt i)" using scalar_roundtrip [of lib "VInt i"] by auto
next
  fix f show "?P (VFloat f)" using scalar_roundtrip [of lib "VFloat f"] by auto
next
  fix b show "?P (VBool b)" using scalar_roundtrip [of lib "VBool b"] by auto
next
  fix s show "?P (VString s)" using scalar_roundtrip [of lib "VString s"] by auto
next
  fix a t assume IH: "?Q t"
  show "?P (VTable a t)"
  proof
    assume "nested_ok lib (VTable a t)"
    then have ok: "table_ok lib t" by simp
    let ?s = "Table_serialize lib t"
    from table_text_shape [of lib t]
    have shape: "tight ?s" "hd ?s = CHR ''['' \<or> hd ?s = CHR ''{''" by simp_all
    then have ne: "?s \<noteq> []" by (simp add: tight_def)
    have "\<exists>w n'. deserialize lib ?s n = Inr (w, n') \<and> same_content lib (VTable a t) w" for n
    proof -
      from IH ok obtain u n' where u: "Table_deserialize lib ?s n = Inr (u, n')"
        "same_table lib t u" by blast
      then have "deserialize lib ?s n = Inr (VTable n' u, Suc n')"
        by (simp add: deserialize_bracket [OF ne shape(2)])
      with u(2) show ?thesis by simp
    qed
    with IH ok shape(1)
    show "tight (serialize lib (VTable a t)) \<and> balanced (serialize lib (VTable a t))
      \<and> (\<forall>n. \<exists>w n'. deserialize lib (serialize lib (VTable a t)) n = Inr (w, n')
                      \<and> same_content lib (VTable a t) w)"
      by simp
  qed
next
  fix d :: "'f pairs" and arr
  assume IH: "\<And>p x. p \<in> set d \<Longrightarrow> x \<in> Basic_BNFs.snds p \<Longrightarrow> ?P x"
  show "?Q (Table d arr)"
  proof
    assume ok: "table_ok lib (Table d arr)"
    have vals: "\<forall>p \<in> set d. tight (serialize lib (snd p)) \<and> balanced (serialize lib (snd p))
      \<and> (\<forall>n. \<exists>w n'. deserialize lib (serialize lib (snd p)) n = Inr (w, n')
                      \<and> same_content lib (snd p) w)"
    proof
      fix p assume p: "p \<in> set d"
      obtain k v where kv: "p = (k, v)" by (cases p)
      from ok p kv have "nested_ok lib v"
        by (cases arr) (auto simp: values_ok_iff entries_ok_iff)
      moreover from p kv have "v \<in> Basic_BNFs.snds p" by simp
      ultimately show "tight (serialize lib (snd p)) \<and> balanced (serialize lib (snd p))
        \<and> (\<forall>n. \<exists>w n'. deserialize lib (serialize lib (snd p)) n = Inr (w, n')
                        \<and> same_content lib (snd p) w)"
        using IH [OF p, of v] kv by simp
    qed
    show "balanced (Table_serialize lib (Table d arr))
        \<and> (\<forall>n. \<exists>u n'. Table_deserialize lib (Table_serialize lib (Table d arr)) n = Inr (u, n')
                        \<and> same_table lib (Table d arr) u)"
    proof (cases arr)
      case True
      with ok have "length d \<le> 2 ^ 31" by simp
      from array_text_roundtrip [OF this vals] array_text_balanced [of d lib] vals True
      show ?thesis by simp
    next
      case False
      with ok have "\<forall>p \<in> set d. key_ok lib (fst p)"
        and "ascending lib (map (\<lambda>p. reparsed lib (fst p)) d)"
        by (simp_all add: entries_ok_iff)
      from map_text_roundtrip [OF this vals] False show ?thesis by simp
    qed
  qed
qed

text \<open>
  C1, amended. Take a value in which no string contains a double quote, no string inside
  a table contains one of \<^verbatim>\<open>, [ ] { }\<close>, no string that is a key contains \<^verbatim>\<open>=\<close>, no
  key is a table, the keys of every map read back are still strictly ascending, every
  array has at most \<open>2^31\<close> elements and the text of every float is a decimal numeral
  that \<^verbatim>\<open>std::stof\<close> converts to a float with the same text. Then
  \<^verbatim>\<open>Value::deserialize\<close> succeeds on the text \<^verbatim>\<open>serialize\<close> gives, and the value it
  returns has the variant and the content of the original: equal integers, booleans and
  strings, floats with the same text of one decimal, tables of the same mode with the
  same elements in the same order.
\<close>

theorem roundtrip_amended:
  "roundtrip_ok lib v
     \<Longrightarrow> \<exists>w n'. deserialize lib (serialize lib v) n = Inr (w, n') \<and> same_content lib v w"
proof (cases v)
  case (VString s)
  then show ?thesis by (simp add: deserialize_string)
next
  case (VInt i)
  assume "roundtrip_ok lib v"
  with VInt nested_roundtrip [of lib v] show ?thesis by (simp add: roundtrip_ok_def)
next
  case (VFloat f)
  assume "roundtrip_ok lib v"
  with VFloat nested_roundtrip [of lib v] show ?thesis by (simp add: roundtrip_ok_def)
next
  case (VBool b)
  assume "roundtrip_ok lib v"
  with VBool nested_roundtrip [of lib v] show ?thesis by (simp add: roundtrip_ok_def)
next
  case (VTable a t)
  assume "roundtrip_ok lib v"
  with VTable nested_roundtrip [of lib v] show ?thesis by (simp add: roundtrip_ok_def)
qed


text \<open>
  A string with a comma inside an array: the text \<^verbatim>\<open>["a,b"]\<close> of the array of the one
  string \<^verbatim>\<open>a,b\<close> is read back as an array of the two strings \<^verbatim>\<open>"a\<close> and \<^verbatim>\<open>b"\<close>.
\<close>

theorem comma_in_string_breaks_roundtrip:
  "CHR 0x22 \<notin> set ''a,b''
   \<and> serialize tenths_lib (VTable 0 (Table_of_vector tenths_lib [VString ''a,b'']))
       = ''[\"a,b\"]''
   \<and> deserialize tenths_lib ''[\"a,b\"]'' 0
       = Inr (VTable 0 (Table_of_vector tenths_lib [VString ''\"a'', VString ''b\"'']), 1)
   \<and> get_data (Table_of_vector tenths_lib [VString ''a,b'']) = Inr [VString ''a,b'']
   \<and> get_data (Table_of_vector tenths_lib [VString ''\"a'', VString ''b\"''])
       = Inr [VString ''\"a'', VString ''b\"'']
   \<and> \<not> same_content tenths_lib (VTable 0 (Table_of_vector tenths_lib [VString ''a,b'']))
         (VTable 0 (Table_of_vector tenths_lib [VString ''\"a'', VString ''b\"'']))"
  by (simp add: parser_simps eval_defs get_data_def value_less_def is_int_def)

lemmas roundtrip_defs = roundtrip_ok_def scalar_ok_def key_ok_def float_text_ok_def plain_def
  reparsed_def stof_def strtof_subject_def tenths_lib_def tenths_of_text_def tenths_text_def
  show_nat.simps digit_char_def lower_def value_less_def is_int_def is_float_def is_bool_def
  is_string_def is_table_def show_int_def

theorem roundtrip_amended_witness:
  "roundtrip_ok tenths_lib
     (VTable 0 (Table_of_vector tenths_lib
        [VString ''a b'', VFloat 15,
         VTable 1 (Table_of_map [(VString ''k'', VInt (- 3)), (VString ''l'', VBool True)])]))
   \<and> (\<exists>w n'.
        deserialize tenths_lib
          (serialize tenths_lib
            (VTable 0 (Table_of_vector tenths_lib
               [VString ''a b'', VFloat 15,
                VTable 1 (Table_of_map [(VString ''k'', VInt (- 3)), (VString ''l'', VBool True)])])))
          0 = Inr (w, n')
        \<and> same_content tenths_lib
            (VTable 0 (Table_of_vector tenths_lib
               [VString ''a b'', VFloat 15,
                VTable 1 (Table_of_map [(VString ''k'', VInt (- 3)), (VString ''l'', VBool True)])]))
            w)"
proof -
  have ok: "roundtrip_ok tenths_lib
     (VTable 0 (Table_of_vector tenths_lib
        [VString ''a b'', VFloat 15,
         VTable 1 (Table_of_map [(VString ''k'', VInt (- 3)), (VString ''l'', VBool True)])]))"
    by (simp add: roundtrip_defs eval_defs)
  from ok roundtrip_amended [OF ok, of 0] show ?thesis by blast
qed

end
